theory Spec2Isabelle
  imports Main "HOL-Library.Word" "HOL-Library.Monad_Syntax"
begin

section \<open>The telnet console driver (drivers/console/telnet\_console.c)\<close>

text \<open>
  A shallow embedding of the telnet console: the ring of line buffers the printk hook
  fills, the sender that drains it, the idle-flush timer, the framer of inbound chunks and
  the teardown of a client connection.

  The C file keeps its state in file-scope statics; the model keeps them in one record that
  every function takes and returns. A function that indexes an array with a value read
  from the state returns an \<open>option\<close>: \<open>None\<close> is an access outside the array, which is
  undefined behaviour in C. Each function is one atomic step (the producer runs under
  \<open>irq_lock\<close>); interleavings inside a function are not modelled.
\<close>

subsection \<open>Configuration\<close>

text \<open>
  The Kconfig values behind the macros \<open>TELNET_LINES\<close>, \<open>TELNET_LINE_SIZE\<close>,
  \<open>TELNET_THRESHOLD\<close> and the console's \<open>CONSOLE_MAX_LINE_LEN\<close> are not part of the
  sources at hand; they are parameters of the model.
\<close>

record config =
  TELNET_LINES :: nat
  TELNET_LINE_SIZE :: nat
  TELNET_THRESHOLD :: int
  CONSOLE_MAX_LINE_LEN :: nat

definition TELNET_MIN_MSG :: nat where
  "TELNET_MIN_MSG = 2"

subsection \<open>Data\<close>

text \<open>\<open>struct line_buf\<close>: \<open>char buf[TELNET_LINE_SIZE]\<close> and \<open>uint16_t len\<close>.\<close>

record line_buf =
  buf :: "8 word list"
  len :: "16 word"

text \<open>\<open>struct line_buf_rb\<close>: the slots and the two \<open>uint16_t\<close> indices.\<close>

record line_buf_rb =
  l_bufs :: "line_buf list"
  line_in :: "16 word"
  line_out :: "16 word"

text \<open>\<open>struct console_input\<close>: the line of a console input buffer.\<close>

record console_input =
  line :: "8 word list"

text \<open>A network buffer: its identity and the application data appended to it so far.\<close>

record net_buf =
  nb_id :: nat
  nb_data :: "8 word list"

text \<open>A printk hook: the driver's own \<open>telnet_console_out\<close>, or some other function.\<close>

datatype hook = Telnet_console_out | Other_hook nat

text \<open>
  Modelled from the spec: the kernel and network primitives the driver calls are outside
  the sources at hand. The semaphore \<open>send_lock\<close> is ``a counting event'': its count,
  without the limit \<open>UINT_MAX\<close>. The timer \<open>send_timer\<close> is a handle that is armed or
  stopped. The process-wide output sink is ``a single sink reference'' (\<open>printk_hook\<close>).
  The transport is only observed: \<open>sent\<close> lists the buffers handed to
  \<open>net_context_send\<close>, \<open>unrefs\<close> the buffers released by \<open>net_buf_unref\<close>,
  \<open>ctx_puts\<close> the contexts released by \<open>net_context_put\<close>. The two fifos are ``a bounded
  free-list pool (non-blocking acquire) and an ordered queue'': \<open>None\<close> is the \<open>NULL\<close>
  pointer, \<open>Some q\<close> a fifo holding \<open>q\<close>. The record holds the statics of the file first,
  then the state of these collaborators.
\<close>

record telnet =
  telnet_rb :: line_buf_rb
  send_lock :: nat
  send_timer :: bool
  client_cnx :: "nat option"
  out_buf :: "net_buf option"
  orig_printk_hook :: "hook option"
  avail_queue :: "console_input list option"
  input_queue :: "console_input list option"
  printk_hook :: "hook option"
  sent :: "net_buf list"
  unrefs :: "net_buf list"
  ctx_puts :: "nat option list"

subsection \<open>Array accesses\<close>

text \<open>A read or a write of a C array at an index: \<open>None\<close> outside the array.\<close>

definition array_get :: "'a list \<Rightarrow> nat \<Rightarrow> 'a option" where
  "array_get xs i = (if i < length xs then Some (xs ! i) else None)"

definition array_set :: "'a list \<Rightarrow> nat \<Rightarrow> 'a \<Rightarrow> 'a list option" where
  "array_set xs i v = (if i < length xs then Some (xs[i := v]) else None)"

text \<open>A store through a pointer to a slot of the ring (the pointer is the slot's index).\<close>

definition put_line :: "telnet \<Rightarrow> nat \<Rightarrow> line_buf \<Rightarrow> telnet" where
  "put_line s i lb = s\<lparr>telnet_rb := (telnet_rb s)\<lparr>l_bufs := (l_bufs (telnet_rb s))[i := lb]\<rparr>\<rparr>"

subsection \<open>The ring\<close>

text \<open>\<open>telnet_rb_init\<close>: both indices to 0, then the loop over the slots.\<close>

fun rb_init_loop :: "nat \<Rightarrow> nat \<Rightarrow> line_buf list \<Rightarrow> line_buf list" where
  "rb_init_loop 0 i bs = bs"
| "rb_init_loop (Suc k) i bs = rb_init_loop k (Suc i) (bs[i := (bs ! i)\<lparr>len := 0\<rparr>])"

definition telnet_rb_init :: "config \<Rightarrow> telnet \<Rightarrow> telnet" where
  "telnet_rb_init cfg s =
     s\<lparr>telnet_rb := (telnet_rb s)\<lparr>line_in := 0, line_out := 0,
          l_bufs := rb_init_loop (TELNET_LINES cfg) 0 (l_bufs (telnet_rb s))\<rparr>\<rparr>"

text \<open>
  \<open>telnet_rb_switch\<close>: the write index moves on and wraps, the new slot is emptied, and
  when the write index has caught up with the read index the read index moves on too.
  The timer is (re)started and the semaphore given.
\<close>

definition telnet_rb_switch :: "config \<Rightarrow> telnet \<Rightarrow> telnet option" where
  "telnet_rb_switch cfg s =
     (let rb = telnet_rb s;
          li = line_in rb + 1;
          li = (if unat li = TELNET_LINES cfg then 0 else li)
      in do {
        lb \<leftarrow> array_get (l_bufs rb) (unat li);
        let bs = (l_bufs rb)[unat li := lb\<lparr>len := 0\<rparr>];
        let lo = (if li = line_out rb
                  then (let lo = line_out rb + 1
                        in if unat lo = TELNET_LINES cfg then 0 else lo)
                  else line_out rb);
        Some (s\<lparr>telnet_rb := rb\<lparr>l_bufs := bs, line_in := li, line_out := lo\<rparr>,
                send_timer := True, send_lock := send_lock s + 1\<rparr>)
      })"

text \<open>
  \<open>telnet_rb_get_line_out\<close>: the read index is saved and moved on; the result is the
  saved slot, or \<open>NULL\<close> when its length is 0.
\<close>

definition telnet_rb_get_line_out :: "config \<Rightarrow> telnet \<Rightarrow> (nat option \<times> telnet) option" where
  "telnet_rb_get_line_out cfg s =
     (let rb = telnet_rb s;
          out = line_out rb;
          lo = line_out rb + 1;
          lo = (if unat lo = TELNET_LINES cfg then 0 else lo);
          s' = s\<lparr>telnet_rb := rb\<lparr>line_out := lo\<rparr>\<rparr>
      in do {
        lb \<leftarrow> array_get (l_bufs rb) (unat out);
        Some (if len lb = 0 then None else Some (unat out), s')
      })"

definition telnet_rb_get_line_in :: "telnet \<Rightarrow> nat" where
  "telnet_rb_get_line_in s = unat (line_in (telnet_rb s))"

subsection \<open>The producer and the timer\<close>

text \<open>
  \<open>telnet_console_out\<close>, the printk hook. The character is stored at \<open>len\<close>; on a
  line feed, or when \<open>len\<close> has reached \<open>TELNET_LINE_SIZE - 1\<close>, the last byte stored
  becomes a carriage return, a line feed follows and the ring switches. The index
  \<open>lb->len-1\<close> is computed on \<open>int\<close>: it is -1, outside the array, when \<open>len\<close> is 0.
  The echo under \<open>CONFIG_TELNET_CONSOLE_DEBUG_DEEP\<close> is compiled out.
\<close>

definition telnet_console_out :: "config \<Rightarrow> int \<Rightarrow> telnet \<Rightarrow> (int \<times> telnet) option" where
  "telnet_console_out cfg c s = do {
     let i = telnet_rb_get_line_in s;
     lb \<leftarrow> array_get (l_bufs (telnet_rb s)) i;
     b \<leftarrow> array_set (buf lb) (unat (len lb)) (word_of_int c);
     let lb = lb\<lparr>buf := b, len := len lb + 1\<rparr>;
     if c = 10 \<or> int (unat (len lb)) = int (TELNET_LINE_SIZE cfg) - 1 then do {
       b \<leftarrow> (if len lb = 0 then None else array_set (buf lb) (unat (len lb) - 1) 13);
       b \<leftarrow> array_set b (unat (len lb)) 10;
       let lb = lb\<lparr>buf := b, len := len lb + 1\<rparr>;
       s \<leftarrow> telnet_rb_switch cfg (put_line s i lb);
       Some (c, s)
     } else Some (c, put_line s i lb)
   }"

text \<open>\<open>telnet_send_prematurely\<close>, the timer's expiry function.\<close>

definition telnet_send_prematurely :: "config \<Rightarrow> telnet \<Rightarrow> telnet option" where
  "telnet_send_prematurely cfg s = do {
     lb \<leftarrow> array_get (l_bufs (telnet_rb s)) (telnet_rb_get_line_in s);
     if int (unat (len lb)) \<ge> TELNET_THRESHOLD cfg then telnet_rb_switch cfg s else Some s
   }"

subsection \<open>Teardown and the sender\<close>

text \<open>
  \<open>telnet_end_client_connection\<close>: the saved hook is installed again and forgotten, the
  timer stopped, the context released and forgotten, the output buffer released when there
  is one, the ring initialised. The function does not assign \<open>out_buf\<close>.
\<close>

definition telnet_end_client_connection :: "config \<Rightarrow> telnet \<Rightarrow> telnet" where
  "telnet_end_client_connection cfg s =
     (let s = s\<lparr>printk_hook := orig_printk_hook s\<rparr>;
          s = s\<lparr>orig_printk_hook := None\<rparr>;
          s = s\<lparr>send_timer := False\<rparr>;
          s = s\<lparr>ctx_puts := ctx_puts s @ [client_cnx s]\<rparr>;
          s = s\<lparr>client_cnx := None\<rparr>;
          s = (case out_buf s of None \<Rightarrow> s | Some b \<Rightarrow> s\<lparr>unrefs := unrefs s @ [b]\<rparr>)
      in telnet_rb_init cfg s)"

text \<open>
  \<open>telnet_setup_out_buf\<close>: \<open>tx\<close> is what \<open>net_nbuf_get_tx\<close> returns, the identity of a
  fresh, empty buffer or \<open>NULL\<close>. The result is the return code and the new state. Of
  \<open>ENOBUFS\<close>, a constant of the C library, only that it is not 0 matters.
\<close>

definition ENOBUFS :: int where
  "ENOBUFS = 55"

definition telnet_setup_out_buf :: "nat option \<Rightarrow> telnet \<Rightarrow> int \<times> telnet" where
  "telnet_setup_out_buf tx s =
     (let s = s\<lparr>out_buf := map_option (\<lambda>n. \<lparr>nb_id = n, nb_data = []\<rparr>) tx\<rparr>
      in if out_buf s = None then (- ENOBUFS, s) else (0, s))"

text \<open>
  \<open>telnet_send\<close>: \<open>rc\<close> is what \<open>net_context_send\<close> returns and \<open>tx\<close> what
  \<open>net_nbuf_get_tx\<close> returns. The \<open>len\<close> bytes of the slot are appended to the output
  buffer (a read outside \<open>buf\<close>, or an append to a \<open>NULL\<close> buffer, is \<open>None\<close>), the
  slot is emptied, and the buffer is handed to the transport.
\<close>

definition telnet_send :: "config \<Rightarrow> int \<Rightarrow> nat option \<Rightarrow> telnet \<Rightarrow> (bool \<times> telnet) option" where
  "telnet_send cfg rc tx s = do {
     (r, s) \<leftarrow> telnet_rb_get_line_out cfg s;
     case r of
       None \<Rightarrow> Some (True, s)
     | Some i \<Rightarrow> do {
         lb \<leftarrow> array_get (l_bufs (telnet_rb s)) i;
         ob \<leftarrow> out_buf s;
         bytes \<leftarrow> (if unat (len lb) \<le> length (buf lb)
                   then Some (take (unat (len lb)) (buf lb)) else None);
         let ob = ob\<lparr>nb_data := nb_data ob @ bytes\<rparr>;
         let s = s\<lparr>out_buf := Some ob\<rparr>;
         let s = put_line s i (lb\<lparr>len := 0\<rparr>);
         let s = s\<lparr>sent := sent s @ [ob]\<rparr>;
         if rc \<noteq> 0 then Some (False, s)
         else (let (e, s) = telnet_setup_out_buf tx s
               in if e \<noteq> 0 then Some (False, s) else Some (True, s))
       }
   }"

text \<open>\<open>telnet_sent_cb\<close>: a non-zero status ends the connection.\<close>

definition telnet_sent_cb :: "config \<Rightarrow> int \<Rightarrow> telnet \<Rightarrow> telnet" where
  "telnet_sent_cb cfg status s =
     (if status \<noteq> 0 then telnet_end_client_connection cfg s else s)"

text \<open>
  One turn of the loop of \<open>telnet_run\<close>: the semaphore is taken, then a line is sent, and
  a failed send ends the connection. With the semaphore at 0 the thread stays blocked and
  nothing changes.
\<close>

definition telnet_run_step :: "config \<Rightarrow> int \<Rightarrow> nat option \<Rightarrow> telnet \<Rightarrow> telnet option" where
  "telnet_run_step cfg rc tx s =
     (if send_lock s = 0 then Some s
      else do {
        (ok, s) \<leftarrow> telnet_send cfg rc tx (s\<lparr>send_lock := send_lock s - 1\<rparr>);
        Some (if \<not> ok then telnet_end_client_connection cfg s else s)
      })"

subsection \<open>The input path\<close>

text \<open>
  \<open>telnet_handle_input\<close>. The buffer received is modelled by its application data, the
  chunk, whose length is the \<open>uint16_t\<close> that \<open>net_nbuf_appdatalen\<close> returns.
  \<open>net_nbuf_read\<close> copies the bytes of the chunk to the start of \<open>input->line\<close>, an array
  of \<open>CONSOLE_MAX_LINE_LEN\<close> bytes whose other bytes stay as they were. The function
  returns nothing: the result is the new state.
\<close>

definition telnet_handle_input :: "config \<Rightarrow> 8 word list \<Rightarrow> telnet \<Rightarrow> telnet" where
  "telnet_handle_input cfg chunk s =
     (let n = length chunk
      in if n > CONSOLE_MAX_LINE_LEN cfg \<or> n < TELNET_MIN_MSG then s
         else if hd chunk = 255 then s
         else (case (avail_queue s, input_queue s) of
                 (Some avail, Some lines) \<Rightarrow>
                   (case avail of
                      [] \<Rightarrow> s
                    | input # rest \<Rightarrow>
                        (let l = chunk @ drop n (line input);
                             l = (if l ! (n - 1) \<noteq> 0
                                  then (let l = (if l ! (n - 1) = 10 then l[n - 1 := 0] else l)
                                        in if l ! (n - 2) = 13 then l[n - 2 := 0] else l)
                                  else l)
                         in s\<lparr>avail_queue := Some rest,
                              input_queue := Some (lines @ [input\<lparr>line := l\<rparr>])\<rparr>))
               | _ \<Rightarrow> s))"

text \<open>
  \<open>telnet_recv\<close>: \<open>buf\<close> is the chunk received, or \<open>NULL\<close>. Without a buffer, or with a
  status, the connection ends; otherwise the chunk is framed. The release of the buffer
  received, which belongs to the network stack, is not recorded.
\<close>

definition telnet_recv :: "config \<Rightarrow> 8 word list option \<Rightarrow> int \<Rightarrow> telnet \<Rightarrow> telnet" where
  "telnet_recv cfg b status s =
     (case b of
        None \<Rightarrow> telnet_end_client_connection cfg s
      | Some chunk \<Rightarrow>
          if status \<noteq> 0 then telnet_end_client_connection cfg s
          else telnet_handle_input cfg chunk s)"

definition telnet_register_input ::
  "console_input list option \<Rightarrow> console_input list option \<Rightarrow> telnet \<Rightarrow> telnet" where
  "telnet_register_input avail lines s = s\<lparr>avail_queue := avail, input_queue := lines\<rparr>"

text \<open>
  \<open>telnet_accept\<close>: \<open>err\<close> is the error the stack reports, \<open>recv_rc\<close> what
  \<open>net_context_recv\<close> returns and \<open>tx\<close> what \<open>net_nbuf_get_tx\<close> returns;
  \<open>__printk_get_hook\<close> reads the sink installed. On every error the new client's context
  is released.
\<close>

definition telnet_accept ::
  "nat \<Rightarrow> int \<Rightarrow> int \<Rightarrow> nat option \<Rightarrow> telnet \<Rightarrow> telnet" where
  "telnet_accept client err recv_rc tx s =
     (let fail = (\<lambda>s. s\<lparr>ctx_puts := ctx_puts s @ [Some client]\<rparr>)
      in if err \<noteq> 0 then fail s
         else if client_cnx s \<noteq> None then fail s
         else if recv_rc \<noteq> 0 then fail s
         else (let (e, s) = telnet_setup_out_buf tx s
               in if e \<noteq> 0 then fail s
                  else (let s = s\<lparr>orig_printk_hook := printk_hook s\<rparr>;
                            s = s\<lparr>printk_hook := Some Telnet_console_out\<rparr>;
                            s = s\<lparr>client_cnx := Some client\<rparr>
                        in s\<lparr>send_timer := True\<rparr>)))"

subsection \<open>Start-up state and runs\<close>

text \<open>
  The statics are zero-initialised; \<open>h\<close> is the printk hook installed before the driver
  touches it.
\<close>

definition telnet_boot :: "config \<Rightarrow> hook option \<Rightarrow> telnet" where
  "telnet_boot cfg h =
     \<lparr>telnet_rb = \<lparr>l_bufs = replicate (TELNET_LINES cfg)
                                 \<lparr>buf = replicate (TELNET_LINE_SIZE cfg) 0, len = 0\<rparr>,
                    line_in = 0, line_out = 0\<rparr>,
      send_lock = 0, send_timer = False, client_cnx = None, out_buf = None,
      orig_printk_hook = None, avail_queue = None, input_queue = None,
      printk_hook = h, sent = [], unrefs = [], ctx_puts = []\<rparr>"

text \<open>The functions of the driver that act on the state, as the steps of a run.\<close>

datatype op =
    Console_out int
  | Send_prematurely
  | Rb_switch
  | Rb_get_line_out
  | Rb_init
  | Send int "nat option"
  | Run_step int "nat option"
  | Sent_cb int
  | Recv "8 word list option" int
  | End_client_connection

fun exec :: "config \<Rightarrow> op \<Rightarrow> telnet \<Rightarrow> telnet option" where
  "exec cfg (Console_out c) s = map_option snd (telnet_console_out cfg c s)"
| "exec cfg Send_prematurely s = telnet_send_prematurely cfg s"
| "exec cfg Rb_switch s = telnet_rb_switch cfg s"
| "exec cfg Rb_get_line_out s = map_option snd (telnet_rb_get_line_out cfg s)"
| "exec cfg Rb_init s = Some (telnet_rb_init cfg s)"
| "exec cfg (Send rc tx) s = map_option snd (telnet_send cfg rc tx s)"
| "exec cfg (Run_step rc tx) s = telnet_run_step cfg rc tx s"
| "exec cfg (Sent_cb status) s = Some (telnet_sent_cb cfg status s)"
| "exec cfg (Recv b status) s = Some (telnet_recv cfg b status s)"
| "exec cfg End_client_connection s = Some (telnet_end_client_connection cfg s)"

fun run :: "config \<Rightarrow> op list \<Rightarrow> telnet \<Rightarrow> telnet option" where
  "run cfg [] s = Some s"
| "run cfg (x # xs) s = (case exec cfg x s of None \<Rightarrow> None | Some s' \<Rightarrow> run cfg xs s')"

subsection \<open>Notions the properties are stated with\<close>

text \<open>The bytes a slot holds: the first \<open>len\<close> bytes of its buffer.\<close>

definition slot_bytes :: "line_buf \<Rightarrow> 8 word list" where
  "slot_bytes lb = take (unat (len lb)) (buf lb)"

text \<open>A slot is readable when its length is not 0 and it is not the current write target.\<close>

definition readable_count :: "telnet \<Rightarrow> nat" where
  "readable_count s =
     length (filter (\<lambda>i. len (l_bufs (telnet_rb s) ! i) \<noteq> 0 \<and> i \<noteq> unat (line_in (telnet_rb s)))
               [0 ..< length (l_bufs (telnet_rb s))])"

text \<open>The lines handed to the transport, in order.\<close>

definition flushed :: "telnet \<Rightarrow> 8 word list list" where
  "flushed s = map nb_data (sent s)"

text \<open>A line that ends with carriage return and line feed.\<close>

definition ends_crlf :: "8 word list \<Rightarrow> bool" where
  "ends_crlf bs = (2 \<le> length bs \<and> drop (length bs - 2) bs = [13, 10])"

text \<open>A byte array read as a C string: the bytes before the first NUL.\<close>

definition c_string :: "8 word list \<Rightarrow> 8 word list" where
  "c_string bs = takeWhile (\<lambda>b. b \<noteq> 0) bs"

text \<open>The arrays have the sizes their types give them.\<close>

definition well_typed :: "config \<Rightarrow> telnet \<Rightarrow> bool" where
  "well_typed cfg s =
     (length (l_bufs (telnet_rb s)) = TELNET_LINES cfg \<and>
      list_all (\<lambda>lb. length (buf lb) = TELNET_LINE_SIZE cfg) (l_bufs (telnet_rb s)))"

text \<open>
  A configuration the indices can address: at least one slot and at most \<open>2 ^ 16\<close>, and a
  slot size that leaves room for the terminator and fits the \<open>uint16_t\<close> length.
\<close>

definition config_ok :: "config \<Rightarrow> bool" where
  "config_ok cfg =
     (0 < TELNET_LINES cfg \<and> TELNET_LINES cfg \<le> 65536 \<and>
      2 \<le> TELNET_LINE_SIZE cfg \<and> TELNET_LINE_SIZE cfg \<le> 65535)"

text \<open>The input with every line feed replaced by carriage return and line feed.\<close>

definition crlf :: "int list \<Rightarrow> 8 word list" where
  "crlf cs = concat (map (\<lambda>c. if c = 10 then [13, 10] else [word_of_int c]) cs)"

subsection \<open>Examples and invariants used in the proofs\<close>

text \<open>A small configuration: three slots of eight bytes.\<close>

definition example_config :: config where
  "example_config =
     \<lparr>TELNET_LINES = 3, TELNET_LINE_SIZE = 8, TELNET_THRESHOLD = 1, CONSOLE_MAX_LINE_LEN = 16\<rparr>"

text \<open>The state once a first client has been accepted after start-up.\<close>

definition example_session :: telnet where
  "example_session =
     telnet_accept 1 0 0 (Some 7) (telnet_boot example_config (Some (Other_hook 0)))"

text \<open>The slots are all there and both indices address one of them.\<close>

definition idx_inv :: "config \<Rightarrow> telnet \<Rightarrow> bool" where
  "idx_inv cfg s = (length (l_bufs (telnet_rb s)) = TELNET_LINES cfg \<and>
      unat (line_in (telnet_rb s)) < TELNET_LINES cfg \<and>
      unat (line_out (telnet_rb s)) < TELNET_LINES cfg)"

text \<open>The same state once the shell has registered a pool of one free input buffer.\<close>

definition example_pool :: telnet where
  "example_pool =
     telnet_register_input (Some [\<lparr>line = replicate 16 1\<rparr>]) (Some []) example_session"

subsection \<open>Streams: runs of the producer and the sender\<close>

text \<open>
  The steps of a stream: the producer's \<open>telnet_console_out\<close>, and turns of the sender's
  loop in which the transport accepts the buffer and hands out a new one.
\<close>

fun is_stream_op :: "op \<Rightarrow> bool" where
  "is_stream_op (Console_out c) = True"
| "is_stream_op (Run_step rc tx) = (rc = 0 \<and> tx \<noteq> None)"
| "is_stream_op _ = False"

text \<open>The characters given to the producer during a run, in order.\<close>

fun outs :: "op list \<Rightarrow> int list" where
  "outs [] = []"
| "outs (Console_out c # xs) = c # outs xs"
| "outs (_ # xs) = outs xs"

text \<open>
  No overwrite event occurs during a run: no call of the producer moves \<open>line_out\<close>,
  which only the overwrite branch of \<open>telnet_rb_switch\<close> does on the producer's side.
\<close>

fun no_overwrite :: "config \<Rightarrow> op list \<Rightarrow> telnet \<Rightarrow> bool" where
  "no_overwrite cfg [] s = True"
| "no_overwrite cfg (x # xs) s =
     (case exec cfg x s of
        None \<Rightarrow> False
      | Some s' \<Rightarrow>
          (case x of
             Console_out c \<Rightarrow> line_out (telnet_rb s') = line_out (telnet_rb s)
           | _ \<Rightarrow> True) \<and>
          no_overwrite cfg xs s')"

text \<open>
  No switch is forced by the capacity of a slot during a run: a call of the producer with
  a character other than the line feed leaves \<open>line_in\<close> where it was.
\<close>

fun no_capacity_switch :: "config \<Rightarrow> op list \<Rightarrow> telnet \<Rightarrow> bool" where
  "no_capacity_switch cfg [] s = True"
| "no_capacity_switch cfg (x # xs) s =
     (case exec cfg x s of
        None \<Rightarrow> False
      | Some s' \<Rightarrow>
          (case x of
             Console_out c \<Rightarrow> c = 10 \<or> line_in (telnet_rb s') = line_in (telnet_rb s)
           | _ \<Rightarrow> True) \<and>
          no_capacity_switch cfg xs s')"

text \<open>A ring as \<open>telnet_rb_init\<close> leaves it: both indices 0 and every length 0.\<close>

definition fresh_ring :: "config \<Rightarrow> telnet \<Rightarrow> bool" where
  "fresh_ring cfg s =
     (well_typed cfg s \<and> line_in (telnet_rb s) = 0 \<and> line_out (telnet_rb s) = 0 \<and>
      list_all (\<lambda>lb. len lb = 0) (l_bufs (telnet_rb s)))"

text \<open>
  A session that starts: a fresh ring, no line signalled to the sender yet, and an empty
  output buffer at hand.
\<close>

definition fresh_session :: "config \<Rightarrow> telnet \<Rightarrow> bool" where
  "fresh_session cfg s =
     (fresh_ring cfg s \<and> send_lock s = 0 \<and>
      (case out_buf s of None \<Rightarrow> False | Some ob \<Rightarrow> nb_data ob = []))"

text \<open>
  The ring read as a history. \<open>L\<close> lists the lines completed so far, of which the first
  \<open>R\<close> have left the ring (sent or overwritten) and the others sit in the slots
  \<open>j mod TELNET_LINES\<close>; \<open>p\<close> is the partial line in the write slot.
\<close>

definition ring_holds :: "config \<Rightarrow> 8 word list list \<Rightarrow> nat \<Rightarrow> 8 word list \<Rightarrow> telnet \<Rightarrow> bool" where
  "ring_holds cfg L R p s =
     (well_typed cfg s \<and>
      unat (line_in (telnet_rb s)) = length L mod TELNET_LINES cfg \<and>
      unat (line_out (telnet_rb s)) = R mod TELNET_LINES cfg \<and>
      R \<le> length L \<and> length L < R + TELNET_LINES cfg \<and>
      (\<forall>j \<in> {R ..< length L}.
         slot_bytes (l_bufs (telnet_rb s) ! (j mod TELNET_LINES cfg)) = L ! j \<and>
         unat (len (l_bufs (telnet_rb s) ! (j mod TELNET_LINES cfg))) = length (L ! j)) \<and>
      slot_bytes (l_bufs (telnet_rb s) ! (length L mod TELNET_LINES cfg)) = p \<and>
      unat (len (l_bufs (telnet_rb s) ! (length L mod TELNET_LINES cfg))) = length p \<and>
      length p + 1 < TELNET_LINE_SIZE cfg)"

text \<open>
  The same for a stream without overwrite: the semaphore counts the lines not yet sent,
  the output buffer is empty, the lines sent since the start \<open>F\<close> of the log are the
  first \<open>R\<close> of \<open>L\<close>, and every completed line ends with carriage return, line feed.
\<close>

definition stream_inv ::
  "config \<Rightarrow> 8 word list list \<Rightarrow> 8 word list list \<Rightarrow> nat \<Rightarrow> 8 word list \<Rightarrow> telnet \<Rightarrow> bool" where
  "stream_inv cfg F L R p s =
     (ring_holds cfg L R p s \<and> send_lock s = length L - R \<and>
      (case out_buf s of None \<Rightarrow> False | Some ob \<Rightarrow> nb_data ob = []) \<and>
      flushed s = F @ take R L \<and> list_all ends_crlf L)"

text \<open>The characters \<open>abcdefghij\<close> and a line feed, given to the producer.\<close>

definition example_input :: "op list" where
  "example_input = map Console_out [97, 98, 99, 100, 101, 102, 103, 104, 105, 106, 10]"

text \<open>A complete line as the producer stores it: its bytes, carriage return, line feed.\<close>

definition terminated :: "int list \<Rightarrow> 8 word list" where
  "terminated l = map word_of_int l @ [13, 10]"

text \<open>The steps that give the producer each line followed by a line feed.\<close>

definition feed_lines :: "int list list \<Rightarrow> op list" where
  "feed_lines ls = map Console_out (concat (map (\<lambda>l. l @ [10]) ls))"

text \<open>
  The unread lines: the slots from \<open>line_out\<close> up to, not including, \<open>line_in\<close>, in the
  order the sender would take them.
\<close>

definition unread :: "config \<Rightarrow> telnet \<Rightarrow> 8 word list list" where
  "unread cfg s =
     map (\<lambda>j. slot_bytes (l_bufs (telnet_rb s) !
                  ((unat (line_out (telnet_rb s)) + j) mod TELNET_LINES cfg)))
       [0 ..< (unat (line_in (telnet_rb s)) + TELNET_LINES cfg - unat (line_out (telnet_rb s)))
                mod TELNET_LINES cfg]"

subsection \<open>Events: the calls the driver receives\<close>

text \<open>
  Modelled from the spec: what calls the driver's entry points is outside the sources at
  hand. printk hands each character to ``a process-wide installable single sink'', so
  \<open>telnet_console_out\<close> runs only while it is the sink installed; the expiry function of the
  timer, the loop of the sender and the callbacks of the network stack may run at any
  time, with any result of the transport. An event is one such call.
\<close>

datatype event =
    Printk int
  | Timer_expiry
  | Sender_turn int "nat option"
  | Sent_callback int
  | Recv_callback "8 word list option" int
  | Accept_callback nat int int "nat option"
  | Register_input "console_input list option" "console_input list option"

fun fire :: "config \<Rightarrow> event \<Rightarrow> telnet \<Rightarrow> telnet option" where
  "fire cfg (Printk c) s =
     (if printk_hook s = Some Telnet_console_out
      then map_option snd (telnet_console_out cfg c s) else Some s)"
| "fire cfg Timer_expiry s = telnet_send_prematurely cfg s"
| "fire cfg (Sender_turn rc tx) s = telnet_run_step cfg rc tx s"
| "fire cfg (Sent_callback status) s = Some (telnet_sent_cb cfg status s)"
| "fire cfg (Recv_callback b status) s = Some (telnet_recv cfg b status s)"
| "fire cfg (Accept_callback client err recv_rc tx) s = Some (telnet_accept client err recv_rc tx s)"
| "fire cfg (Register_input avail lines) s = Some (telnet_register_input avail lines s)"

fun run_events :: "config \<Rightarrow> event list \<Rightarrow> telnet \<Rightarrow> telnet option" where
  "run_events cfg [] s = Some s"
| "run_events cfg (e # es) s =
     (case fire cfg e s of None \<Rightarrow> None | Some s' \<Rightarrow> run_events cfg es s')"

text \<open>
  Both indices address a slot, and fewer slots are readable than there are slots (the
  write slot never is).
\<close>

definition in_range :: "config \<Rightarrow> telnet \<Rightarrow> bool" where
  "in_range cfg s =
     (unat (line_in (telnet_rb s)) < TELNET_LINES cfg \<and>
      unat (line_out (telnet_rb s)) < TELNET_LINES cfg \<and>
      readable_count s < TELNET_LINES cfg)"

text \<open>
  What keeps every array access of the ring inside its array: the arrays have their sizes,
  both indices address a slot, no length exceeds the slot size, and the write slot has
  room for a character and the terminator.
\<close>

definition ring_safe :: "config \<Rightarrow> telnet \<Rightarrow> bool" where
  "ring_safe cfg s =
     (well_typed cfg s \<and>
      unat (line_in (telnet_rb s)) < TELNET_LINES cfg \<and>
      unat (line_out (telnet_rb s)) < TELNET_LINES cfg \<and>
      list_all (\<lambda>lb. unat (len lb) \<le> TELNET_LINE_SIZE cfg) (l_bufs (telnet_rb s)) \<and>
      unat (len (l_bufs (telnet_rb s) ! unat (line_in (telnet_rb s)))) + 1 < TELNET_LINE_SIZE cfg)"

text \<open>Every slot is empty.\<close>

definition idle :: "telnet \<Rightarrow> bool" where
  "idle s = list_all (\<lambda>lb. len lb = 0) (l_bufs (telnet_rb s))"

text \<open>The pointers of the session are the same in two states.\<close>

definition same_session :: "telnet \<Rightarrow> telnet \<Rightarrow> bool" where
  "same_session s s' =
     (client_cnx s' = client_cnx s \<and> out_buf s' = out_buf s \<and>
      printk_hook s' = printk_hook s \<and> orig_printk_hook s' = orig_printk_hook s)"

text \<open>
  The invariant of the driver under its events: the ring is safe, the hook saved is never
  the driver's own, without a client the ring is empty and the driver's hook is not
  installed, and an output buffer is missing only without a client.
\<close>

definition safe :: "config \<Rightarrow> telnet \<Rightarrow> bool" where
  "safe cfg s =
     (ring_safe cfg s \<and> orig_printk_hook s \<noteq> Some Telnet_console_out \<and>
      (client_cnx s = None \<longrightarrow> idle s \<and> printk_hook s \<noteq> Some Telnet_console_out) \<and>
      (out_buf s = None \<longrightarrow> client_cnx s = None))"

text \<open>A session: a client is accepted, four lines are printed, the timer and the sender run.\<close>

definition example_events :: "event list" where
  "example_events =
     [Accept_callback 1 0 0 (Some 7), Printk 97, Printk 10, Printk 98, Printk 10,
      Sender_turn 0 (Some 8), Printk 99, Printk 10, Printk 100, Printk 10, Timer_expiry,
      Sender_turn 0 (Some 9)]"

subsection \<open>Flushes: runs of the producer, the timer and the sender\<close>

text \<open>What switched a slot: the producer, at a line feed or at capacity, or the timer.\<close>

datatype switcher = By_producer | By_timer

text \<open>
  The steps of a flush: the producer, the expiry function of the timer, and turns of the
  sender's loop in which the transport accepts the buffer and hands out a new one.
\<close>

fun is_flush_op :: "op \<Rightarrow> bool" where
  "is_flush_op (Console_out c) = True"
| "is_flush_op Send_prematurely = True"
| "is_flush_op (Run_step rc tx) = (rc = 0 \<and> tx \<noteq> None)"
| "is_flush_op _ = False"

text \<open>
  No overwrite event occurs during a run: neither a call of the producer nor one of the
  timer moves \<open>line_out\<close>.
\<close>

fun keeps_unread :: "config \<Rightarrow> op list \<Rightarrow> telnet \<Rightarrow> bool" where
  "keeps_unread cfg [] s = True"
| "keeps_unread cfg (x # xs) s =
     (case exec cfg x s of
        None \<Rightarrow> False
      | Some s' \<Rightarrow>
          (case x of
             Console_out c \<Rightarrow> line_out (telnet_rb s') = line_out (telnet_rb s)
           | Send_prematurely \<Rightarrow> line_out (telnet_rb s') = line_out (telnet_rb s)
           | _ \<Rightarrow> True) \<and>
          keeps_unread cfg xs s')"

text \<open>
  What a step switched, if it moved \<open>line_in\<close>: for the producer the slot it has just
  terminated, for the timer the partial line as the write slot held it when the timer
  expired.
\<close>

definition switch_record :: "op \<Rightarrow> telnet \<Rightarrow> telnet \<Rightarrow> (switcher \<times> 8 word list) list" where
  "switch_record x s s' =
     (if line_in (telnet_rb s') = line_in (telnet_rb s) then []
      else (case x of
              Console_out c \<Rightarrow>
                [(By_producer, slot_bytes (l_bufs (telnet_rb s') ! unat (line_in (telnet_rb s))))]
            | Send_prematurely \<Rightarrow>
                [(By_timer, slot_bytes (l_bufs (telnet_rb s) ! unat (line_in (telnet_rb s))))]
            | _ \<Rightarrow> []))"

text \<open>The slots switched during a run, in order, each with what switched it.\<close>

fun switched :: "config \<Rightarrow> op list \<Rightarrow> telnet \<Rightarrow> (switcher \<times> 8 word list) list" where
  "switched cfg [] s = []"
| "switched cfg (x # xs) s =
     (case exec cfg x s of
        None \<Rightarrow> []
      | Some s' \<Rightarrow> switch_record x s s' @ switched cfg xs s')"

text \<open>
  The history of a flush without overwrite: as for streams, but a line completed by the
  timer may lack the terminator, and an empty one is passed over by the sender.
\<close>

definition flush_inv ::
  "config \<Rightarrow> 8 word list list \<Rightarrow> 8 word list list \<Rightarrow> nat \<Rightarrow> 8 word list \<Rightarrow> telnet \<Rightarrow> bool" where
  "flush_inv cfg F L R p s =
     (ring_holds cfg L R p s \<and> send_lock s = length L - R \<and>
      (case out_buf s of None \<Rightarrow> False | Some ob \<Rightarrow> nb_data ob = []) \<and>
      flushed s = F @ filter (\<lambda>l. l \<noteq> []) (take R L))"

text \<open>
  A prompt the timer flushes, then \<open>abcdefghij\<close> and a line feed, the timer again, and the
  sender.
\<close>

definition example_flush :: "op list" where
  "example_flush =
     [Console_out 62, Send_prematurely, Run_step 0 (Some 8)] @
     map Console_out [97, 98, 99, 100, 101, 102, 103, 104, 105, 106, 10] @
     [Send_prematurely, Run_step 0 (Some 9), Run_step 0 (Some 10)]"

section \<open>Properties\<close>

subsection \<open>The indices stay inside the ring\<close>

lemma unat_succ_le: "unat ((w :: 16 word) + 1) \<le> unat w + 1"
  by (simp add: unat_word_ariths)

lemma wrap_lt:
  fixes w :: "16 word"
  assumes "0 < n" "unat w < n"
  shows "unat (if unat (w + 1) = n then 0 else w + 1) < n"
  using assms unat_succ_le [of w] by auto

lemma wrap_mod:
  fixes w :: "16 word"
  assumes "unat w < n" "n \<le> 65536"
  shows "unat (if unat (w + 1) = n then 0 else w + 1) = (unat w + 1) mod n"
proof (cases "unat w + 1 < 65536")
  case True
  then have "unat (w + 1) = unat w + 1"
    by (simp add: unat_word_ariths)
  with assms show ?thesis by auto
next
  case False
  with assms have "unat w = 65535" "n = 65536" by auto
  then show ?thesis by (simp add: unat_word_ariths)
qed

lemma rb_init_loop_length [simp]: "length (rb_init_loop k i bs) = length bs"
  by (induction k i bs rule: rb_init_loop.induct) auto

lemma idx_inv_switch:
  assumes "0 < TELNET_LINES cfg" "idx_inv cfg s" "telnet_rb_switch cfg s = Some s'"
  shows "idx_inv cfg s'"
  using assms wrap_lt [of "TELNET_LINES cfg" "line_in (telnet_rb s)"]
    wrap_lt [of "TELNET_LINES cfg" "line_out (telnet_rb s)"]
  by (auto simp: telnet_rb_switch_def idx_inv_def Let_def array_get_def split: if_splits Option.bind_splits)

lemma idx_inv_put_line [simp]: "idx_inv cfg (put_line s i lb) = idx_inv cfg s"
  by (simp add: idx_inv_def put_line_def)

lemma idx_inv_get_line_out:
  assumes "0 < TELNET_LINES cfg" "idx_inv cfg s" "telnet_rb_get_line_out cfg s = Some (r, s')"
  shows "idx_inv cfg s'"
  using assms wrap_lt [of "TELNET_LINES cfg" "line_out (telnet_rb s)"]
  by (auto simp: telnet_rb_get_line_out_def idx_inv_def Let_def array_get_def split: if_splits Option.bind_splits)

lemma console_out_cases:
  assumes "telnet_console_out cfg c s = Some (r, s')"
  obtains (stay) lb where "s' = put_line s (telnet_rb_get_line_in s) lb"
  | (switch) lb where "telnet_rb_switch cfg (put_line s (telnet_rb_get_line_in s) lb) = Some s'"
  using assms unfolding telnet_console_out_def Let_def
  by (auto split: if_splits Option.bind_splits)

lemma idx_inv_console_out:
  assumes "0 < TELNET_LINES cfg" "idx_inv cfg s" "telnet_console_out cfg c s = Some (r, s')"
  shows "idx_inv cfg s'"
  using assms(3)
proof (cases rule: console_out_cases)
  case (stay lb)
  with assms show ?thesis by simp
next
  case (switch lb)
  with assms idx_inv_switch [OF assms(1) _ switch] show ?thesis by simp
qed

lemma idx_inv_send_prematurely:
  assumes "0 < TELNET_LINES cfg" "idx_inv cfg s" "telnet_send_prematurely cfg s = Some s'"
  shows "idx_inv cfg s'"
  using assms
  by (auto simp: telnet_send_prematurely_def split: if_splits Option.bind_splits dest: idx_inv_switch)

lemma idx_inv_rb_init:
  assumes "0 < TELNET_LINES cfg" "length (l_bufs (telnet_rb s)) = TELNET_LINES cfg"
  shows "idx_inv cfg (telnet_rb_init cfg s)"
  using assms by (simp add: idx_inv_def telnet_rb_init_def)

lemma idx_inv_end:
  assumes "0 < TELNET_LINES cfg" "idx_inv cfg s"
  shows "idx_inv cfg (telnet_end_client_connection cfg s)"
proof -
  have "length (l_bufs (telnet_rb (telnet_end_client_connection cfg s))) = length (l_bufs (telnet_rb s))"
    "line_in (telnet_rb (telnet_end_client_connection cfg s)) = 0"
    "line_out (telnet_rb (telnet_end_client_connection cfg s)) = 0"
    by (simp_all add: telnet_end_client_connection_def Let_def telnet_rb_init_def split: option.splits)
  with assms show ?thesis by (simp add: idx_inv_def)
qed

lemma send_ring:
  assumes "telnet_send cfg rc tx s = Some (r, s')"
  obtains r1 s1 where "telnet_rb_get_line_out cfg s = Some (r1, s1)"
    "length (l_bufs (telnet_rb s')) = length (l_bufs (telnet_rb s1))"
    "line_in (telnet_rb s') = line_in (telnet_rb s1)"
    "line_out (telnet_rb s') = line_out (telnet_rb s1)"
proof -
  from assms obtain r1 s1 where g: "telnet_rb_get_line_out cfg s = Some (r1, s1)"
    by (auto simp: telnet_send_def split: Option.bind_splits)
  show ?thesis
  proof (cases r1)
    case None
    with assms g have "s' = s1" by (simp add: telnet_send_def)
    with g that show ?thesis by blast
  next
    case (Some i)
    with assms g obtain lb ob where
      "s' = put_line (s1\<lparr>out_buf := Some ob\<rparr>) i lb\<lparr>sent := sent s1 @ [ob]\<rparr> \<or>
       s' = put_line (s1\<lparr>out_buf := Some ob\<rparr>) i lb
              \<lparr>sent := sent s1 @ [ob], out_buf := map_option (\<lambda>n. \<lparr>nb_id = n, nb_data = []\<rparr>) tx\<rparr>"
      by (auto simp: telnet_send_def telnet_setup_out_buf_def Let_def put_line_def
          split: Option.bind_splits if_splits)
    then have "length (l_bufs (telnet_rb s')) = length (l_bufs (telnet_rb s1))"
      "line_in (telnet_rb s') = line_in (telnet_rb s1)"
      "line_out (telnet_rb s') = line_out (telnet_rb s1)"
      by (auto simp: put_line_def)
    with g that show ?thesis by blast
  qed
qed

lemma idx_inv_send:
  assumes "0 < TELNET_LINES cfg" "idx_inv cfg s" "telnet_send cfg rc tx s = Some (r, s')"
  shows "idx_inv cfg s'"
  using assms(3)
proof (cases rule: send_ring)
  case (1 r1 s1)
  with assms idx_inv_get_line_out [OF assms(1,2) 1(1)] show ?thesis
    by (simp add: idx_inv_def)
qed

lemma idx_inv_run_step:
  assumes "0 < TELNET_LINES cfg" "idx_inv cfg s" "telnet_run_step cfg rc tx s = Some s'"
  shows "idx_inv cfg s'"
proof (cases "send_lock s = 0")
  case True
  with assms show ?thesis by (simp add: telnet_run_step_def)
next
  case False
  have i: "idx_inv cfg (s\<lparr>send_lock := send_lock s - 1\<rparr>)"
    using assms(2) by (simp add: idx_inv_def)
  from assms(3) False obtain ok s1 where
    s1: "telnet_send cfg rc tx (s\<lparr>send_lock := send_lock s - 1\<rparr>) = Some (ok, s1)"
    and s': "s' = (if \<not> ok then telnet_end_client_connection cfg s1 else s1)"
    by (auto simp: telnet_run_step_def split: Option.bind_splits)
  have "idx_inv cfg s1" using idx_inv_send [OF assms(1) i s1] .
  with s' assms(1) show ?thesis by (simp add: idx_inv_end)
qed

lemma handle_input_rb [simp]: "telnet_rb (telnet_handle_input cfg chunk s) = telnet_rb s"
  by (simp add: telnet_handle_input_def Let_def split: option.splits list.splits)

lemma idx_inv_handle_input [simp]: "idx_inv cfg (telnet_handle_input cfg chunk s) = idx_inv cfg s"
  by (simp add: idx_inv_def)

lemma idx_inv_exec:
  assumes "0 < TELNET_LINES cfg" "idx_inv cfg s" "exec cfg x s = Some s'"
  shows "idx_inv cfg s'"
proof (cases x)
  case (Console_out c)
  with assms show ?thesis by (auto dest: idx_inv_console_out)
next
  case Send_prematurely
  with assms show ?thesis by (auto dest: idx_inv_send_prematurely)
next
  case Rb_switch
  with assms show ?thesis by (auto dest: idx_inv_switch)
next
  case Rb_get_line_out
  with assms show ?thesis by (auto dest: idx_inv_get_line_out)
next
  case Rb_init
  with assms show ?thesis using idx_inv_rb_init [of cfg s] by (simp add: idx_inv_def)
next
  case (Send rc tx)
  with assms show ?thesis by (auto dest: idx_inv_send)
next
  case (Run_step rc tx)
  with assms show ?thesis by (auto dest: idx_inv_run_step)
next
  case (Sent_cb st)
  with assms show ?thesis by (auto simp: telnet_sent_cb_def intro: idx_inv_end)
next
  case (Recv b st)
  with assms show ?thesis by (auto simp: telnet_recv_def intro: idx_inv_end split: option.splits)
next
  case End_client_connection
  with assms show ?thesis by (auto intro: idx_inv_end)
qed

lemma idx_inv_run:
  assumes "0 < TELNET_LINES cfg" "idx_inv cfg s" "run cfg xs s = Some s'"
  shows "idx_inv cfg s'"
  using assms
proof (induction xs arbitrary: s)
  case Nil
  then show ?case by simp
next
  case (Cons x xs)
  then show ?case by (auto split: option.splits dest: idx_inv_exec)
qed

lemma idx_inv_boot: "0 < TELNET_LINES cfg \<Longrightarrow> idx_inv cfg (telnet_boot cfg h)"
  by (simp add: idx_inv_def telnet_boot_def)

text \<open>Whatever functions of the driver run, where they are defined the indices stay in range.\<close>

lemma run_keeps_indices:
  assumes "0 < TELNET_LINES cfg" and "run cfg xs (telnet_boot cfg h) = Some s"
  shows "unat (line_in (telnet_rb s)) < TELNET_LINES cfg \<and>
         unat (line_out (telnet_rb s)) < TELNET_LINES cfg \<and>
         readable_count s \<le> TELNET_LINES cfg"
proof -
  have "idx_inv cfg s"
    using assms idx_inv_boot idx_inv_run by blast
  moreover have "readable_count s \<le> length (l_bufs (telnet_rb s))"
    using length_filter_le [of _ "[0 ..< length (l_bufs (telnet_rb s))]"]
    by (simp add: readable_count_def)
  ultimately show ?thesis by (simp add: idx_inv_def)
qed

subsection \<open>Taking the next line to send\<close>

text \<open>
  Claim C3, as stated, fails: on a slot of length 0 the read index does not stay where it
  was. In the state of a fresh session the slot at \<open>line_out = 0\<close> is empty;
  \<open>telnet_rb_get_line_out\<close> returns \<open>NULL\<close> and \<open>line_out\<close> is 1 afterwards.
\<close>

theorem get_line_out_advances_when_empty:
  "telnet_rb_get_line_out example_config example_session =
     Some (None, example_session\<lparr>telnet_rb := (telnet_rb example_session)\<lparr>line_out := 1\<rparr>\<rparr>) \<and>
   line_out (telnet_rb example_session) = 0"
  by code_simp

text \<open>
  Claim C3, amended. In every state whose read index addresses a slot,
  \<open>telnet_rb_get_line_out\<close> returns the slot at the read index when its length is not 0 and
  \<open>NULL\<close> otherwise; in both cases it moves the read index on by one slot, back to 0 after
  the last, and changes nothing else.
\<close>

theorem get_line_out_result:
  assumes "TELNET_LINES cfg \<le> 65536"
    and "length (l_bufs (telnet_rb s)) = TELNET_LINES cfg"
    and "unat (line_out (telnet_rb s)) < TELNET_LINES cfg"
  shows "\<exists>w. telnet_rb_get_line_out cfg s =
           Some (if len (l_bufs (telnet_rb s) ! unat (line_out (telnet_rb s))) = 0 then None
                 else Some (unat (line_out (telnet_rb s))),
                 s\<lparr>telnet_rb := (telnet_rb s)\<lparr>line_out := w\<rparr>\<rparr>) \<and>
         unat w = (unat (line_out (telnet_rb s)) + 1) mod TELNET_LINES cfg"
proof -
  let ?w = "if unat (line_out (telnet_rb s) + 1) = TELNET_LINES cfg then 0
            else line_out (telnet_rb s) + 1"
  have "telnet_rb_get_line_out cfg s =
           Some (if len (l_bufs (telnet_rb s) ! unat (line_out (telnet_rb s))) = 0 then None
                 else Some (unat (line_out (telnet_rb s))),
                 s\<lparr>telnet_rb := (telnet_rb s)\<lparr>line_out := ?w\<rparr>\<rparr>)"
    using assms(2,3) by (simp add: telnet_rb_get_line_out_def Let_def array_get_def)
  moreover have "unat ?w = (unat (line_out (telnet_rb s)) + 1) mod TELNET_LINES cfg"
    using wrap_mod [OF assms(3,1)] .
  ultimately show ?thesis by blast
qed


theorem get_line_out_result_witness:
  "TELNET_LINES example_config \<le> 65536 \<and>
   length (l_bufs (telnet_rb example_session)) = TELNET_LINES example_config \<and>
   unat (line_out (telnet_rb example_session)) < TELNET_LINES example_config \<and>
   (\<exists>w. telnet_rb_get_line_out example_config example_session =
          Some (None, example_session\<lparr>telnet_rb := (telnet_rb example_session)\<lparr>line_out := w\<rparr>\<rparr>) \<and>
        unat w = 1)"
proof -
  have rb: "telnet_rb example_session =
      \<lparr>l_bufs = replicate 3 \<lparr>buf = replicate 8 0, len = 0\<rparr>, line_in = 0, line_out = 0\<rparr>"
    by (simp add: example_session_def example_config_def telnet_accept_def telnet_boot_def
        telnet_setup_out_buf_def ENOBUFS_def Let_def)
  have h1: "TELNET_LINES example_config \<le> 65536" by (simp add: example_config_def)
  have h2: "length (l_bufs (telnet_rb example_session)) = TELNET_LINES example_config"
    by (simp add: rb example_config_def)
  have h3: "unat (line_out (telnet_rb example_session)) < TELNET_LINES example_config"
    by (simp add: rb example_config_def)
  have h4: "len (l_bufs (telnet_rb example_session) ! unat (line_out (telnet_rb example_session))) = 0"
    by (simp add: rb)
  have h5: "(unat (line_out (telnet_rb example_session)) + 1) mod TELNET_LINES example_config = 1"
    by (simp add: rb example_config_def)
  from get_line_out_result [OF h1 h2 h3] obtain w where
    "telnet_rb_get_line_out example_config example_session =
       Some (if len (l_bufs (telnet_rb example_session) ! unat (line_out (telnet_rb example_session))) = 0
             then None else Some (unat (line_out (telnet_rb example_session))),
             example_session\<lparr>telnet_rb := (telnet_rb example_session)\<lparr>line_out := w\<rparr>\<rparr>)"
    "unat w = (unat (line_out (telnet_rb example_session)) + 1) mod TELNET_LINES example_config"
    by blast
  with h4 h5 have "telnet_rb_get_line_out example_config example_session =
          Some (None, example_session\<lparr>telnet_rb := (telnet_rb example_session)\<lparr>line_out := w\<rparr>\<rparr>) \<and>
        unat w = 1"
    by (simp only: simp_thms if_True)
  with h1 h2 h3 show ?thesis by blast
qed

subsection \<open>Framing inbound chunks\<close>

text \<open>
  Claim C7. A chunk shorter than \<open>TELNET_MIN_MSG\<close>, longer than
  \<open>CONSOLE_MAX_LINE_LEN\<close>, or starting with the byte 255 leaves the whole state as it was:
  no line is queued and no buffer leaves the free pool. The function has no result through
  which an error could reach a caller.
\<close>

theorem handle_input_discards:
  assumes "length chunk < TELNET_MIN_MSG \<or> CONSOLE_MAX_LINE_LEN cfg < length chunk \<or>
           (chunk \<noteq> [] \<and> hd chunk = 255)"
  shows "telnet_handle_input cfg chunk s = s"
  using assms by (auto simp: telnet_handle_input_def Let_def)

theorem handle_input_discards_witness:
  "(length [255, 65, 66, 13, 10 :: 8 word] < TELNET_MIN_MSG \<or>
    CONSOLE_MAX_LINE_LEN example_config < length [255, 65, 66, 13, 10 :: 8 word] \<or>
    ([255, 65, 66, 13, 10 :: 8 word] \<noteq> [] \<and> hd [255, 65, 66, 13, 10 :: 8 word] = 255)) \<and>
   telnet_handle_input example_config [255, 65, 66, 13, 10] example_pool = example_pool"
  using handle_input_discards [of "[255, 65, 66, 13, 10]" example_config example_pool]
  by simp

text \<open>
  Claim C10. For an accepted chunk that does not start with 255 and ends with the NUL
  byte, with a free buffer at hand, nothing is normalised: the line queued is the chunk as
  copied, followed by what the buffer held beyond it.
\<close>

theorem handle_input_nul_terminated:
  assumes "TELNET_MIN_MSG \<le> length chunk" and "length chunk \<le> CONSOLE_MAX_LINE_LEN cfg"
    and "hd chunk \<noteq> 255" and "last chunk = 0"
    and "avail_queue s = Some (input # rest)" and "input_queue s = Some lines"
  shows "telnet_handle_input cfg chunk s =
           s\<lparr>avail_queue := Some rest,
             input_queue := Some (lines @ [input\<lparr>line := chunk @ drop (length chunk) (line input)\<rparr>])\<rparr>"
proof -
  from assms(1) have ne: "chunk \<noteq> []" by (auto simp: TELNET_MIN_MSG_def)
  then have "(chunk @ drop (length chunk) (line input)) ! (length chunk - 1) = last chunk"
    by (simp add: nth_append last_conv_nth)
  with assms show ?thesis
    by (simp add: telnet_handle_input_def Let_def)
qed

theorem handle_input_nul_terminated_witness:
  "TELNET_MIN_MSG \<le> length [104, 105, 13, 10, 0 :: 8 word] \<and>
   length [104, 105, 13, 10, 0 :: 8 word] \<le> CONSOLE_MAX_LINE_LEN example_config \<and>
   hd [104, 105, 13, 10, 0 :: 8 word] \<noteq> 255 \<and> last [104, 105, 13, 10, 0 :: 8 word] = 0 \<and>
   avail_queue example_pool = Some [\<lparr>line = replicate 16 1\<rparr>] \<and>
   input_queue example_pool = Some [] \<and>
   input_queue (telnet_handle_input example_config [104, 105, 13, 10, 0] example_pool) =
     Some [\<lparr>line = [104, 105, 13, 10, 0] @ replicate 11 1\<rparr>]"
proof -
  have h: "TELNET_MIN_MSG \<le> length [104, 105, 13, 10, 0 :: 8 word]"
    "length [104, 105, 13, 10, 0 :: 8 word] \<le> CONSOLE_MAX_LINE_LEN example_config"
    "hd [104, 105, 13, 10, 0 :: 8 word] \<noteq> 255" "last [104, 105, 13, 10, 0 :: 8 word] = 0"
    "avail_queue example_pool = Some [\<lparr>line = replicate 16 1\<rparr>]"
    "input_queue example_pool = Some []"
    by (simp_all add: TELNET_MIN_MSG_def example_config_def example_pool_def
        telnet_register_input_def)
  from handle_input_nul_terminated [OF h] h show ?thesis by simp
qed

text \<open>
  Claim C6, as stated, fails: a carriage return is cleared although no line feed follows
  it. The chunk \<open>a CR b\<close> is queued as \<open>a NUL b\<close>.
\<close>

theorem handle_input_clears_lone_cr:
  "input_queue (telnet_handle_input example_config [97, 13, 98] example_pool) =
     Some [\<lparr>line = [97, 0, 98] @ replicate 13 1\<rparr>]"
  by code_simp

lemma c_string_upto_nul: "0 \<notin> set body \<Longrightarrow> c_string (body @ 0 # zs) = body"
  by (simp add: c_string_def takeWhile_append)

lemma normalise_tail:
  fixes body :: "8 word list"
  assumes "y \<noteq> 0"
  shows "(let n = Suc (Suc (length body)); l = body @ x # y # zs
          in if l ! (n - 1) \<noteq> 0
             then (let l = (if l ! (n - 1) = 10 then l[n - 1 := 0] else l)
                   in if l ! (n - 2) = 13 then l[n - 2 := 0] else l)
             else l) =
         body @ (if x = 13 then 0 else x) # (if y = 10 then 0 else y) # zs"
proof -
  have a: "(body @ x # y # zs) ! Suc (length body) = y"
    by (simp add: nth_append)
  have b: "(body @ x # y # zs)[Suc (length body) := 0] = body @ x # 0 # zs"
    by (simp add: list_update_append)
  have c: "(body @ x # v # zs) ! length body = x" for v
    by (simp add: nth_append)
  have d: "(body @ x # v # zs)[length body := 0] = body @ 0 # v # zs" for v
    by (simp add: list_update_append)
  show ?thesis
    using assms by (simp only: Let_def diff_Suc_1 diff_Suc_Suc diff_zero a b c d
        numeral_2_eq_2 One_nat_def split: if_splits) simp
qed

text \<open>
  Claim C6, amended. For an accepted chunk that does not start with 255 and whose last
  byte \<open>y\<close> is not NUL, with a free buffer at hand, the line queued is the chunk with
  \<open>y\<close> cleared when it is a line feed and with the byte \<open>x\<close> before it cleared when it
  is a carriage return, whatever \<open>y\<close> is. When the chunk ends in carriage return and line
  feed and its body has no NUL, the line queued reads as the body: \<open>h i CR LF\<close> is queued
  as the string \<open>hi\<close>.
\<close>

theorem handle_input_normalises:
  assumes "length (body @ [x, y]) \<le> CONSOLE_MAX_LINE_LEN cfg"
    and "hd (body @ [x, y]) \<noteq> 255" and "y \<noteq> 0"
    and "avail_queue s = Some (input # rest)" and "input_queue s = Some lines"
  shows "telnet_handle_input cfg (body @ [x, y]) s =
           s\<lparr>avail_queue := Some rest,
             input_queue := Some (lines @
               [input\<lparr>line := body @ [if x = 13 then 0 else x, if y = 10 then 0 else y] @
                               drop (length body + 2) (line input)\<rparr>])\<rparr> \<and>
         (x = 13 \<and> y = 10 \<and> 0 \<notin> set body \<longrightarrow>
            c_string (body @ [if x = 13 then 0 else x, if y = 10 then 0 else y] @
                        drop (length body + 2) (line input)) = body)"
proof -
  let ?n = "Suc (Suc (length body))"
  let ?zs = "drop ?n (line input)"
  have len: "length (body @ [x, y]) = ?n" by simp
  have app: "(body @ [x, y]) @ ?zs = body @ x # y # ?zs" by simp
  have "telnet_handle_input cfg (body @ [x, y]) s =
      s\<lparr>avail_queue := Some rest,
        input_queue := Some (lines @ [input\<lparr>line :=
          (let n = ?n; l = body @ x # y # ?zs
           in if l ! (n - 1) \<noteq> 0
              then (let l = (if l ! (n - 1) = 10 then l[n - 1 := 0] else l)
                    in if l ! (n - 2) = 13 then l[n - 2 := 0] else l)
              else l)\<rparr>])\<rparr>"
    using assms(1,2,4,5) unfolding telnet_handle_input_def len app
    by (simp add: Let_def TELNET_MIN_MSG_def)
  then have "telnet_handle_input cfg (body @ [x, y]) s =
      s\<lparr>avail_queue := Some rest,
        input_queue := Some (lines @ [input\<lparr>line :=
          body @ (if x = 13 then 0 else x) # (if y = 10 then 0 else y) # ?zs\<rparr>])\<rparr>"
    by (simp only: normalise_tail [OF assms(3)])
  then show ?thesis using c_string_upto_nul [of body] by simp
qed

theorem handle_input_normalises_witness:
  "length ([104, 105] @ [13, 10 :: 8 word]) \<le> CONSOLE_MAX_LINE_LEN example_config \<and>
   hd ([104, 105] @ [13, 10 :: 8 word]) \<noteq> 255 \<and> (10 :: 8 word) \<noteq> 0 \<and>
   avail_queue example_pool = Some [\<lparr>line = replicate 16 1\<rparr>] \<and>
   input_queue example_pool = Some [] \<and>
   input_queue (telnet_handle_input example_config ([104, 105] @ [13, 10]) example_pool) =
     Some [\<lparr>line = [104, 105, 0, 0] @ replicate 12 1\<rparr>] \<and>
   c_string ([104, 105, 0, 0] @ replicate 12 1) = [104, 105]"
proof -
  have h: "length ([104, 105] @ [13, 10 :: 8 word]) \<le> CONSOLE_MAX_LINE_LEN example_config"
    "hd ([104, 105] @ [13, 10 :: 8 word]) \<noteq> 255" "(10 :: 8 word) \<noteq> 0"
    "avail_queue example_pool = Some [\<lparr>line = replicate 16 1\<rparr>]"
    "input_queue example_pool = Some []"
    by (simp_all add: example_config_def example_pool_def telnet_register_input_def)
  have d: "drop 4 (replicate 16 (1 :: 8 word)) = replicate 12 1" by simp
  from handle_input_normalises [OF h] h d show ?thesis by simp
qed

subsection \<open>Ending a client connection\<close>

lemma end_client_connection_effects:
  "printk_hook (telnet_end_client_connection cfg s) = orig_printk_hook s \<and>
   orig_printk_hook (telnet_end_client_connection cfg s) = None \<and>
   send_timer (telnet_end_client_connection cfg s) = False \<and>
   client_cnx (telnet_end_client_connection cfg s) = None \<and>
   ctx_puts (telnet_end_client_connection cfg s) = ctx_puts s @ [client_cnx s] \<and>
   unrefs (telnet_end_client_connection cfg s) =
     (case out_buf s of None \<Rightarrow> unrefs s | Some b \<Rightarrow> unrefs s @ [b]) \<and>
   line_in (telnet_rb (telnet_end_client_connection cfg s)) = 0 \<and>
   line_out (telnet_rb (telnet_end_client_connection cfg s)) = 0 \<and>
   out_buf (telnet_end_client_connection cfg s) = out_buf s"
  by (simp add: telnet_end_client_connection_def telnet_rb_init_def Let_def split: option.splits)

text \<open>The ring after a teardown is the ring after \<open>telnet_rb_init\<close>.\<close>

lemma rb_init_loop_nth:
  assumes "j < length bs"
  shows "rb_init_loop k i bs ! j =
           (if i \<le> j \<and> j < i + k then (bs ! j)\<lparr>len := 0\<rparr> else bs ! j)"
  using assms
proof (induction k i bs rule: rb_init_loop.induct)
  case (1 i bs)
  then show ?case by auto
next
  case (2 k i bs)
  from "2.prems" have j: "j < length (bs[i := (bs ! i)\<lparr>len := 0\<rparr>])" by simp
  note ih = "2.IH" [OF j]
  consider "j < i" | "j = i" | "i < j" by linarith
  then show ?case
  proof cases
    case 1
    with ih show ?thesis by simp
  next
    case 2
    with ih "2.prems" show ?thesis by simp
  next
    case 3
    with ih show ?thesis by auto
  qed
qed

lemma end_client_connection_fresh_ring:
  assumes "well_typed cfg s"
  shows "fresh_ring cfg (telnet_end_client_connection cfg s)"
proof -
  let ?bs = "l_bufs (telnet_rb s)"
  have rb: "telnet_rb (telnet_end_client_connection cfg s) =
      (telnet_rb s)\<lparr>line_in := 0, line_out := 0,
          l_bufs := rb_init_loop (TELNET_LINES cfg) 0 ?bs\<rparr>"
    by (simp add: telnet_end_client_connection_def telnet_rb_init_def Let_def split: option.splits)
  from assms have len: "length ?bs = TELNET_LINES cfg"
    and bufs: "\<And>j. j < length ?bs \<Longrightarrow> length (buf (?bs ! j)) = TELNET_LINE_SIZE cfg"
    by (simp_all add: well_typed_def list_all_length)
  have "rb_init_loop (TELNET_LINES cfg) 0 ?bs ! j = (?bs ! j)\<lparr>len := 0\<rparr>" if "j < length ?bs" for j
    using that len by (simp add: rb_init_loop_nth)
  with len bufs show ?thesis
    by (simp add: fresh_ring_def well_typed_def rb list_all_length)
qed

text \<open>
  Claim C8 does not hold of the code. After \<open>telnet_end_client_connection\<close> in a session
  that holds the output buffer 7, the hook, the context and the timer are reset and the
  buffer is released, but \<open>out_buf\<close> still refers to the released buffer; a second
  teardown releases it again.
\<close>

theorem end_client_connection_keeps_out_buf:
  "out_buf example_session = Some \<lparr>nb_id = 7, nb_data = []\<rparr> \<and>
   out_buf (telnet_end_client_connection example_config example_session) =
     Some \<lparr>nb_id = 7, nb_data = []\<rparr> \<and>
   unrefs (telnet_end_client_connection example_config example_session) =
     [\<lparr>nb_id = 7, nb_data = []\<rparr>] \<and>
   client_cnx (telnet_end_client_connection example_config example_session) = None \<and>
   orig_printk_hook (telnet_end_client_connection example_config example_session) = None \<and>
   unrefs (telnet_end_client_connection example_config
            (telnet_end_client_connection example_config example_session)) =
     [\<lparr>nb_id = 7, nb_data = []\<rparr>, \<lparr>nb_id = 7, nb_data = []\<rparr>]"
  by code_simp

subsection \<open>The ring as a history of lines\<close>

lemma mod_distinct:
  fixes a b n :: nat
  assumes "a < b" "b < a + n"
  shows "a mod n \<noteq> b mod n"
proof
  assume "a mod n = b mod n"
  then have "b mod n = a mod n" by simp
  then have "n dvd b - a" using assms(1) by (simp add: mod_eq_dvd_iff_nat)
  moreover have "0 < b - a" "b - a < n" using assms by auto
  ultimately show False using nat_dvd_not_less by blast
qed

lemma unat_succ:
  fixes w :: "16 word"
  assumes "unat w + 1 < 65536"
  shows "unat (w + 1) = unat w + 1"
  using assms by (simp add: unat_word_ariths)

lemma switch_result:
  assumes "length (l_bufs (telnet_rb s)) = TELNET_LINES cfg" and "TELNET_LINES cfg \<le> 65536"
    and "unat (line_in (telnet_rb s)) < TELNET_LINES cfg"
    and "unat (line_out (telnet_rb s)) < TELNET_LINES cfg"
  shows "\<exists>s'. telnet_rb_switch cfg s = Some s' \<and>
           unat (line_in (telnet_rb s')) = (unat (line_in (telnet_rb s)) + 1) mod TELNET_LINES cfg \<and>
           unat (line_out (telnet_rb s')) =
             (if (unat (line_in (telnet_rb s)) + 1) mod TELNET_LINES cfg = unat (line_out (telnet_rb s))
              then (unat (line_out (telnet_rb s)) + 1) mod TELNET_LINES cfg
              else unat (line_out (telnet_rb s))) \<and>
           l_bufs (telnet_rb s') =
             (l_bufs (telnet_rb s))[(unat (line_in (telnet_rb s)) + 1) mod TELNET_LINES cfg :=
                (l_bufs (telnet_rb s) ! ((unat (line_in (telnet_rb s)) + 1) mod TELNET_LINES cfg))\<lparr>len := 0\<rparr>] \<and>
           send_lock s' = send_lock s + 1 \<and> out_buf s' = out_buf s \<and> sent s' = sent s"
proof -
  define n where "n = TELNET_LINES cfg"
  define li where "li = (if unat (line_in (telnet_rb s) + 1) = n then 0 else line_in (telnet_rb s) + 1)"
  define lo where "lo = (if unat (line_out (telnet_rb s) + 1) = n then 0 else line_out (telnet_rb s) + 1)"
  have li: "unat li = (unat (line_in (telnet_rb s)) + 1) mod n"
    unfolding li_def n_def using wrap_mod [OF assms(3,2)] .
  have lo: "unat lo = (unat (line_out (telnet_rb s)) + 1) mod n"
    unfolding lo_def n_def using wrap_mod [OF assms(4,2)] .
  have "0 < n" using assms(3) by (simp add: n_def)
  then have lt: "unat li < length (l_bufs (telnet_rb s))"
    using assms(1) li by (simp add: n_def)
  have eq: "(li = line_out (telnet_rb s)) = (unat li = unat (line_out (telnet_rb s)))"
    by (simp add: word_unat_eq_iff)
  have "telnet_rb_switch cfg s =
      Some (s\<lparr>telnet_rb := (telnet_rb s)\<lparr>l_bufs := (l_bufs (telnet_rb s))[unat li :=
                  (l_bufs (telnet_rb s) ! unat li)\<lparr>len := 0\<rparr>],
                line_in := li,
                line_out := (if li = line_out (telnet_rb s) then lo else line_out (telnet_rb s))\<rparr>,
              send_timer := True, send_lock := send_lock s + 1\<rparr>)"
    using lt unfolding telnet_rb_switch_def li_def lo_def n_def
    by (simp add: Let_def array_get_def)
  then show ?thesis
    using li lo by (simp add: eq n_def [symmetric])
qed

lemma console_out_stay:
  assumes "unat (line_in (telnet_rb s)) < length (l_bufs (telnet_rb s))"
    and "lb = l_bufs (telnet_rb s) ! unat (line_in (telnet_rb s))"
    and "length (buf lb) = TELNET_LINE_SIZE cfg" and "TELNET_LINE_SIZE cfg \<le> 65535"
    and "unat (len lb) + 2 < TELNET_LINE_SIZE cfg" and "c \<noteq> 10"
  shows "telnet_console_out cfg c s =
           Some (c, put_line s (unat (line_in (telnet_rb s)))
                      (lb\<lparr>buf := (buf lb)[unat (len lb) := word_of_int c], len := len lb + 1\<rparr>))"
proof -
  define m where "m = unat (len lb)"
  have u: "unat (len lb + 1) = m + 1"
    unfolding m_def using assms(4,5) by (intro unat_succ) simp
  have ne: "uint (len lb + 1) \<noteq> int (TELNET_LINE_SIZE cfg) - 1"
    using assms(5) unfolding uint_nat u m_def by linarith
  have a: "array_get (l_bufs (telnet_rb s)) (unat (line_in (telnet_rb s))) = Some lb"
    using assms(1,2) by (simp add: array_get_def)
  have b: "array_set (buf lb) (unat (len lb)) (word_of_int c) =
             Some ((buf lb)[unat (len lb) := word_of_int c])"
    using assms(3,5) by (simp add: array_set_def)
  show ?thesis
    using ne assms(6)
    by (simp add: telnet_console_out_def Let_def telnet_rb_get_line_in_def a b)
qed

lemma console_out_switch:
  assumes "unat (line_in (telnet_rb s)) < length (l_bufs (telnet_rb s))"
    and "lb = l_bufs (telnet_rb s) ! unat (line_in (telnet_rb s))"
    and "length (buf lb) = TELNET_LINE_SIZE cfg" and "TELNET_LINE_SIZE cfg \<le> 65535"
    and "unat (len lb) + 1 < TELNET_LINE_SIZE cfg"
    and "c = 10 \<or> unat (len lb) + 2 = TELNET_LINE_SIZE cfg"
  shows "telnet_console_out cfg c s =
           map_option (Pair c) (telnet_rb_switch cfg
             (put_line s (unat (line_in (telnet_rb s)))
                (lb\<lparr>buf := (buf lb)[unat (len lb) := 13, Suc (unat (len lb)) := 10],
                    len := len lb + 2\<rparr>)))"
proof -
  define m where "m = unat (len lb)"
  have u: "unat (len lb + 1) = Suc m"
    unfolding m_def using assms(4,5) unat_succ [of "len lb"] by simp
  then have nz: "len lb + 1 \<noteq> 0"
    by (metis nat.distinct(1) unat_0)
  have c: "c = 10 \<or> uint (len lb + 1) = int (TELNET_LINE_SIZE cfg) - 1"
    using assms(6) unfolding uint_nat u m_def by linarith
  have a: "array_get (l_bufs (telnet_rb s)) (unat (line_in (telnet_rb s))) = Some lb"
    using assms(1,2) by (simp add: array_get_def)
  have b: "array_set (buf lb) (unat (len lb)) (word_of_int c) =
             Some ((buf lb)[m := word_of_int c])"
    using assms(3,5) by (simp add: array_set_def m_def)
  have b2: "array_set ((buf lb)[m := word_of_int c]) m 13 =
             Some ((buf lb)[m := 13])"
    using assms(3,5) by (simp add: array_set_def m_def)
  have b3: "array_set ((buf lb)[m := 13]) (Suc m) 10 =
             Some ((buf lb)[m := 13, Suc m := 10])"
    using assms(3,5) by (simp add: array_set_def m_def)
  have l2: "len lb + 1 + 1 = len lb + 2" by simp
  have "telnet_console_out cfg c s =
          telnet_rb_switch cfg
             (put_line s (unat (line_in (telnet_rb s)))
                (lb\<lparr>buf := (buf lb)[m := 13, Suc m := 10], len := len lb + 2\<rparr>)) \<bind>
          (\<lambda>s. Some (c, s))"
    using c nz
    by (simp add: telnet_console_out_def Let_def telnet_rb_get_line_in_def a b u b2 b3 l2)
  then show ?thesis
    unfolding m_def by (simp add: map_option_case split: option.splits)
qed

lemma list_all_update:
  assumes "list_all P xs" "P x"
  shows "list_all P (xs[i := x])"
  using assms set_update_subset_insert [of xs i x] by (auto simp: list_all_iff)

lemma well_typed_put_line:
  assumes "well_typed cfg s" "length (buf lb) = TELNET_LINE_SIZE cfg"
  shows "well_typed cfg (put_line s i lb)"
  using assms by (simp add: well_typed_def put_line_def list_all_update)

lemma well_typed_nth:
  assumes "well_typed cfg s" "i < TELNET_LINES cfg"
  shows "length (buf (l_bufs (telnet_rb s) ! i)) = TELNET_LINE_SIZE cfg"
  using assms by (simp add: well_typed_def list_all_length)

lemma take_Suc_update:
  assumes "m < length xs"
  shows "take (Suc m) (xs[m := w]) = take m xs @ [w]"
  using assms by (simp add: take_Suc_conv_app_nth)

lemma take_Suc_Suc_update:
  assumes "Suc m < length xs"
  shows "take (Suc (Suc m)) (xs[m := v, Suc m := w]) = take m xs @ [v, w]"
  using assms by (simp add: take_Suc_conv_app_nth)

lemma put_line_fields [simp]:
  "telnet_rb (put_line s i lb) = (telnet_rb s)\<lparr>l_bufs := (l_bufs (telnet_rb s))[i := lb]\<rparr>"
  "send_lock (put_line s i lb) = send_lock s"
  "out_buf (put_line s i lb) = out_buf s"
  "sent (put_line s i lb) = sent s"
  by (simp_all add: put_line_def)

text \<open>A character that does not end the line is added to the partial line.\<close>

lemma holds_append:
  assumes h: "ring_holds cfg L R p s" and ok: "config_ok cfg"
    and c: "c \<noteq> 10" and room: "length p + 2 < TELNET_LINE_SIZE cfg"
  shows "\<exists>s'. telnet_console_out cfg c s = Some (c, s') \<and>
           ring_holds cfg L R (p @ [word_of_int c]) s' \<and>
           send_lock s' = send_lock s \<and> out_buf s' = out_buf s \<and> sent s' = sent s"
proof -
  define n where "n = TELNET_LINES cfg"
  define i where "i = length L mod n"
  define lb where "lb = l_bufs (telnet_rb s) ! i"
  define lb' where "lb' = lb\<lparr>buf := (buf lb)[unat (len lb) := word_of_int c], len := len lb + 1\<rparr>"
  define s' where "s' = put_line s i lb'"
  from ok have n: "0 < n" and cap: "TELNET_LINE_SIZE cfg \<le> 65535"
    by (simp_all add: config_ok_def n_def)
  from h have wt: "well_typed cfg s" and li: "unat (line_in (telnet_rb s)) = i"
    and lo: "unat (line_out (telnet_rb s)) = R mod n"
    and RL: "R \<le> length L" "length L < R + n"
    and stored: "\<And>j. R \<le> j \<Longrightarrow> j < length L \<Longrightarrow>
          slot_bytes (l_bufs (telnet_rb s) ! (j mod n)) = L ! j \<and>
          unat (len (l_bufs (telnet_rb s) ! (j mod n))) = length (L ! j)"
    and p: "slot_bytes lb = p" "unat (len lb) = length p"
    by (simp_all add: ring_holds_def n_def i_def lb_def)
  have i: "i < n" using n by (simp add: i_def)
  have len: "length (l_bufs (telnet_rb s)) = n"
    using wt by (simp add: well_typed_def n_def)
  have blen: "length (buf lb) = TELNET_LINE_SIZE cfg"
    using well_typed_nth [OF wt] i by (simp add: lb_def n_def)
  have run: "telnet_console_out cfg c s = Some (c, s')"
    unfolding s'_def lb'_def li [symmetric]
    using c room p(2) blen cap i len
    by (intro console_out_stay) (simp_all add: li lb_def)
  have u: "unat (len lb + 1) = Suc (length p)"
    using unat_succ [of "len lb"] room cap p(2) by simp
  have bytes: "slot_bytes lb' = p @ [word_of_int c]"
    using p room blen by (simp add: slot_bytes_def lb'_def u take_Suc_update)
  have wt': "well_typed cfg s'"
    unfolding s'_def using wt blen by (intro well_typed_put_line) (simp_all add: lb'_def)
  have other: "l_bufs (telnet_rb s') ! (j mod n) = l_bufs (telnet_rb s) ! (j mod n)"
    if "R \<le> j" "j < length L" for j
  proof -
    have "j mod n \<noteq> length L mod n"
      using that RL by (intro mod_distinct) simp_all
    then show ?thesis by (simp add: s'_def i_def)
  qed
  have mine: "l_bufs (telnet_rb s') ! i = lb'"
    using i len by (simp add: s'_def)
  have "ring_holds cfg L R (p @ [word_of_int c]) s'"
    unfolding ring_holds_def n_def [symmetric] i_def [symmetric]
    using wt' li lo RL stored other mine bytes u room
    by (simp add: s'_def lb'_def)
  then show ?thesis using run by (auto simp: s'_def)
qed

text \<open>
  A line feed, or a character that fills the slot to \<open>TELNET_LINE_SIZE - 1\<close>, completes
  the line with carriage return and line feed; the oldest line in the ring is lost when
  the ring is full.
\<close>

lemma holds_switch:
  assumes h: "ring_holds cfg L R p s" and ok: "config_ok cfg"
    and c: "c = 10 \<or> length p + 2 = TELNET_LINE_SIZE cfg"
  shows "\<exists>s'. telnet_console_out cfg c s = Some (c, s') \<and>
           ring_holds cfg (L @ [p @ [13, 10]])
             (if length L + 1 = R + TELNET_LINES cfg then R + 1 else R) [] s' \<and>
           send_lock s' = send_lock s + 1 \<and> out_buf s' = out_buf s \<and> sent s' = sent s"
proof -
  define n where "n = TELNET_LINES cfg"
  define i where "i = length L mod n"
  define i' where "i' = (length L + 1) mod n"
  define R' where "R' = (if length L + 1 = R + n then R + 1 else R)"
  define lb where "lb = l_bufs (telnet_rb s) ! i"
  define lb' where "lb' = lb\<lparr>buf := (buf lb)[unat (len lb) := 13, Suc (unat (len lb)) := 10],
                              len := len lb + 2\<rparr>"
  define s1 where "s1 = put_line s i lb'"
  from ok have n: "0 < n" "n \<le> 65536" and cap: "2 \<le> TELNET_LINE_SIZE cfg" "TELNET_LINE_SIZE cfg \<le> 65535"
    by (simp_all add: config_ok_def n_def)
  from h have wt: "well_typed cfg s" and li: "unat (line_in (telnet_rb s)) = i"
    and lo: "unat (line_out (telnet_rb s)) = R mod n"
    and RL: "R \<le> length L" "length L < R + n"
    and stored: "\<And>j. R \<le> j \<Longrightarrow> j < length L \<Longrightarrow>
          slot_bytes (l_bufs (telnet_rb s) ! (j mod n)) = L ! j \<and>
          unat (len (l_bufs (telnet_rb s) ! (j mod n))) = length (L ! j)"
    and p: "slot_bytes lb = p" "unat (len lb) = length p" "length p + 1 < TELNET_LINE_SIZE cfg"
    by (simp_all add: ring_holds_def n_def i_def lb_def)
  have i: "i < n" and i'n: "i' < n" using n by (simp_all add: i_def i'_def)
  have i'i: "i' = (i + 1) mod n"
    by (simp add: i_def i'_def mod_Suc_eq)
  have len: "length (l_bufs (telnet_rb s)) = n"
    using wt by (simp add: well_typed_def n_def)
  have blen: "length (buf lb) = TELNET_LINE_SIZE cfg"
    using well_typed_nth [OF wt] i by (simp add: lb_def n_def)
  have step: "telnet_console_out cfg c s = map_option (Pair c) (telnet_rb_switch cfg s1)"
    unfolding s1_def lb'_def li [symmetric]
    using c p(2,3) blen cap i len
    by (intro console_out_switch) (simp_all add: li lb_def)
  have wt1: "well_typed cfg s1"
    unfolding s1_def using wt blen by (intro well_typed_put_line) (simp_all add: lb'_def)
  have len1: "length (l_bufs (telnet_rb s1)) = TELNET_LINES cfg"
    using len by (simp add: s1_def n_def)
  have in1: "unat (line_in (telnet_rb s1)) < TELNET_LINES cfg"
    using li i by (simp add: s1_def n_def)
  have out1: "unat (line_out (telnet_rb s1)) < TELNET_LINES cfg"
    using lo n by (simp add: s1_def n_def)
  from switch_result [OF len1 _ in1 out1] n(2) obtain s' where
    sw: "telnet_rb_switch cfg s1 = Some s'"
    and in': "unat (line_in (telnet_rb s')) = i'"
    and out': "unat (line_out (telnet_rb s')) = (if i' = R mod n then (R mod n + 1) mod n else R mod n)"
    and bufs': "l_bufs (telnet_rb s') = (l_bufs (telnet_rb s1))[i' := (l_bufs (telnet_rb s1) ! i')\<lparr>len := 0\<rparr>]"
    and frame: "send_lock s' = send_lock s + 1" "out_buf s' = out_buf s" "sent s' = sent s"
    unfolding n_def [symmetric] by (auto simp: s1_def li lo i'i)
  have ov: "(i' = R mod n) = (length L + 1 = R + n)"
  proof (cases "length L + 1 = R + n")
    case True
    then show ?thesis by (simp add: i'_def)
  next
    case False
    with RL have "R < length L + 1" "length L + 1 < R + n" by simp_all
    then have "R mod n \<noteq> (length L + 1) mod n" by (rule mod_distinct)
    with False show ?thesis by (simp add: i'_def)
  qed
  have out'': "unat (line_out (telnet_rb s')) = R' mod n"
    using out' unfolding ov R'_def by (simp add: mod_Suc_eq)
  have R': "R' \<le> length L + 1" "length L + 1 < R' + n"
    using RL n by (auto simp: R'_def)
  have "length (buf ((l_bufs (telnet_rb s1) ! i')\<lparr>len := 0\<rparr>)) = TELNET_LINE_SIZE cfg"
    using well_typed_nth [OF wt1, of i'] i'n by (simp add: n_def)
  then have wt': "well_typed cfg s'"
    using wt1 unfolding well_typed_def bufs'
    by (simp add: list_all_update)
  have u2: "unat (len lb + 2) = Suc (Suc (length p))"
  proof -
    have "unat (len lb + 1) = length p + 1"
      using unat_succ [of "len lb"] p cap by simp
    moreover have "unat (len lb + 1 + 1) = unat (len lb + 1) + 1"
      using p cap calculation by (intro unat_succ) simp
    ultimately show ?thesis by (simp add: add.commute)
  qed
  have bytes: "slot_bytes lb' = p @ [13, 10]"
    using p blen by (simp add: slot_bytes_def lb'_def u2 take_Suc_Suc_update)
  have newest: "l_bufs (telnet_rb s') ! i = lb'" if "R' \<le> length L"
  proof -
    from that RL have "length L + 1 < length L + n" by (auto simp: R'_def split: if_splits)
    then have "length L mod n \<noteq> (length L + 1) mod n"
      by (intro mod_distinct) simp_all
    then have "i \<noteq> i'" by (simp add: i_def i'_def)
    then show ?thesis using i len by (simp add: bufs' s1_def)
  qed
  have older: "l_bufs (telnet_rb s') ! (j mod n) = l_bufs (telnet_rb s) ! (j mod n)"
    if "R' \<le> j" "j < length L" for j
  proof -
    from that RL have "R \<le> j" by (auto simp: R'_def split: if_splits)
    have "j mod n \<noteq> length L mod n"
      using that RL \<open>R \<le> j\<close> by (intro mod_distinct) simp_all
    moreover have "j mod n \<noteq> (length L + 1) mod n"
      using that RL by (intro mod_distinct) (auto simp: R'_def split: if_splits)
    ultimately show ?thesis by (simp add: bufs' s1_def i_def i'_def)
  qed
  have fresh: "len (l_bufs (telnet_rb s') ! i') = 0"
    using i'n len by (simp add: bufs' s1_def)
  have st: "slot_bytes (l_bufs (telnet_rb s') ! (j mod n)) = (L @ [p @ [13, 10]]) ! j \<and>
            unat (len (l_bufs (telnet_rb s') ! (j mod n))) = length ((L @ [p @ [13, 10]]) ! j)"
    if "R' \<le> j" "j < length L + 1" for j
  proof (cases "j = length L")
    case True
    with that newest bytes u2 show ?thesis
      by (simp add: i_def [symmetric] lb'_def)
  next
    case False
    with that have j: "j < length L" by simp
    from that RL have "R \<le> j" by (auto simp: R'_def split: if_splits)
    with older [OF that(1) j] stored [OF _ j] j show ?thesis
      by (simp add: nth_append)
  qed
  have st': "\<forall>j \<in> {R' ..< length (L @ [p @ [13, 10]])}.
      slot_bytes (l_bufs (telnet_rb s') ! (j mod n)) = (L @ [p @ [13, 10]]) ! j \<and>
      unat (len (l_bufs (telnet_rb s') ! (j mod n))) = length ((L @ [p @ [13, 10]]) ! j)"
    using st by simp
  have empty: "slot_bytes (l_bufs (telnet_rb s') ! i') = []"
    "unat (len (l_bufs (telnet_rb s') ! i')) = length ([] :: 8 word list)"
    using fresh by (simp_all add: slot_bytes_def)
  have "ring_holds cfg (L @ [p @ [13, 10]]) R' [] s'"
    unfolding ring_holds_def n_def [symmetric]
    using wt' in' out'' R' st' empty cap
    by (simp add: i'_def)
  then show ?thesis
    using step sw frame unfolding R'_def n_def by auto
qed

text \<open>A turn of the sender's loop sends the oldest line in the ring.\<close>

lemma holds_drain:
  assumes h: "ring_holds cfg L R p s" and ok: "config_ok cfg"
    and R: "R < length L" and ne: "L ! R \<noteq> []"
    and sem: "0 < send_lock s" and ob: "out_buf s = Some ob"
  shows "\<exists>s'. telnet_run_step cfg 0 (Some b) s = Some s' \<and>
           ring_holds cfg L (R + 1) p s' \<and>
           send_lock s' = send_lock s - 1 \<and>
           out_buf s' = Some \<lparr>nb_id = b, nb_data = []\<rparr> \<and>
           sent s' = sent s @ [ob\<lparr>nb_data := nb_data ob @ L ! R\<rparr>]"
proof -
  define n where "n = TELNET_LINES cfg"
  define ko where "ko = R mod n"
  define lb where "lb = l_bufs (telnet_rb s) ! ko"
  define s0 where "s0 = s\<lparr>send_lock := send_lock s - 1\<rparr>"
  from ok have n: "0 < n" "n \<le> 65536"
    by (simp_all add: config_ok_def n_def)
  from h have wt: "well_typed cfg s" and li: "unat (line_in (telnet_rb s)) = length L mod n"
    and lo: "unat (line_out (telnet_rb s)) = ko"
    and RL: "R \<le> length L" "length L < R + n"
    and stored: "\<And>j. R \<le> j \<Longrightarrow> j < length L \<Longrightarrow>
          slot_bytes (l_bufs (telnet_rb s) ! (j mod n)) = L ! j \<and>
          unat (len (l_bufs (telnet_rb s) ! (j mod n))) = length (L ! j)"
    and p: "slot_bytes (l_bufs (telnet_rb s) ! (length L mod n)) = p"
      "unat (len (l_bufs (telnet_rb s) ! (length L mod n))) = length p"
      "length p + 1 < TELNET_LINE_SIZE cfg"
    by (simp_all add: ring_holds_def n_def ko_def)
  have ko: "ko < n" using n by (simp add: ko_def)
  have len: "length (l_bufs (telnet_rb s)) = n"
    using wt by (simp add: well_typed_def n_def)
  have blen: "length (buf lb) = TELNET_LINE_SIZE cfg"
    using well_typed_nth [OF wt] ko by (simp add: lb_def n_def)
  from stored [of R] R have line: "slot_bytes lb = L ! R" "unat (len lb) = length (L ! R)"
    by (simp_all add: lb_def ko_def)
  from line ne have nz: "len lb \<noteq> 0"
    by (metis length_0_conv unat_0)
  have fits: "unat (len lb) \<le> length (buf lb)"
  proof -
    have "length (slot_bytes lb) = unat (len lb)" using line by simp
    then show ?thesis by (simp add: slot_bytes_def)
  qed
  define w where "w = (if unat (line_out (telnet_rb s) + 1) = n then 0 else line_out (telnet_rb s) + 1)"
  have w: "unat w = (R + 1) mod n"
    unfolding w_def using wrap_mod [of "line_out (telnet_rb s)" n] lo ko n
    by (simp add: ko_def mod_Suc_eq)
  define s' where "s' = s\<lparr>telnet_rb := (telnet_rb s)\<lparr>line_out := w,
                               l_bufs := (l_bufs (telnet_rb s))[ko := lb\<lparr>len := 0\<rparr>]\<rparr>,
                          send_lock := send_lock s - 1,
                          out_buf := Some \<lparr>nb_id = b, nb_data = []\<rparr>,
                          sent := sent s @ [ob\<lparr>nb_data := nb_data ob @ L ! R\<rparr>]\<rparr>"
  have get: "telnet_rb_get_line_out cfg s0 =
      Some (Some ko, s0\<lparr>telnet_rb := (telnet_rb s)\<lparr>line_out := w\<rparr>\<rparr>)"
    using ko len nz lo
    by (simp add: telnet_rb_get_line_out_def Let_def array_get_def s0_def w_def n_def lb_def)
  have s0: "telnet_rb s0 = telnet_rb s" "out_buf s0 = Some ob" "sent s0 = sent s"
    using ob by (simp_all add: s0_def)
  have "telnet_send cfg 0 (Some b) s0 =
      Some (True, s0\<lparr>telnet_rb := (telnet_rb s)\<lparr>line_out := w,
                               l_bufs := (l_bufs (telnet_rb s))[ko := lb\<lparr>len := 0\<rparr>]\<rparr>,
                          out_buf := Some \<lparr>nb_id = b, nb_data = []\<rparr>,
                          sent := sent s @ [ob\<lparr>nb_data := nb_data ob @ L ! R\<rparr>]\<rparr>)"
    using ko len fits line(1)
    by (simp add: telnet_send_def get array_get_def lb_def [symmetric] s0 Let_def
        telnet_setup_out_buf_def put_line_def slot_bytes_def)
  then have send: "telnet_send cfg 0 (Some b) s0 = Some (True, s')"
    by (simp add: s0_def s'_def)
  have step: "telnet_run_step cfg 0 (Some b) s = Some s'"
    using sem send by (simp add: telnet_run_step_def s0_def)
  have wt': "well_typed cfg s'"
    using wt blen unfolding well_typed_def s'_def by (simp add: list_all_update)
  have keep: "l_bufs (telnet_rb s') ! (j mod n) = l_bufs (telnet_rb s) ! (j mod n)"
    if "R < j" "j < R + n" for j
  proof -
    have "R mod n \<noteq> j mod n" using that by (rule mod_distinct)
    then show ?thesis by (simp add: s'_def ko_def)
  qed
  have st': "\<forall>j \<in> {R + 1 ..< length L}.
      slot_bytes (l_bufs (telnet_rb s') ! (j mod n)) = L ! j \<and>
      unat (len (l_bufs (telnet_rb s') ! (j mod n))) = length (L ! j)"
    using keep stored RL by simp
  have "ring_holds cfg L (R + 1) p s'"
    unfolding ring_holds_def n_def [symmetric]
    using wt' R RL st' keep [of "length L"] p w li
    by (simp add: s'_def)
  then show ?thesis using step by (simp add: s'_def)
qed

subsection \<open>Streams without overwrite\<close>

lemma fresh_ring_holds:
  assumes "fresh_ring cfg s" "config_ok cfg"
  shows "ring_holds cfg [] 0 [] s"
proof -
  from assms have "0 < length (l_bufs (telnet_rb s))"
    by (simp add: fresh_ring_def well_typed_def config_ok_def)
  with assms have "len (l_bufs (telnet_rb s) ! 0) = 0"
    by (simp add: fresh_ring_def list_all_length)
  with assms show ?thesis
    by (simp add: ring_holds_def fresh_ring_def config_ok_def slot_bytes_def)
qed

lemma fresh_session_inv:
  assumes "fresh_session cfg s" "config_ok cfg"
  shows "stream_inv cfg (flushed s) [] 0 [] s"
  using assms fresh_ring_holds [of cfg s]
  by (simp add: stream_inv_def fresh_session_def)

lemma ends_crlf_append [simp]: "ends_crlf (p @ [13, 10])"
  by (simp add: ends_crlf_def)

lemma ends_crlf_nonempty: "ends_crlf l \<Longrightarrow> l \<noteq> []"
  by (auto simp: ends_crlf_def)

lemma stream_step_out:
  assumes inv: "stream_inv cfg F L R p s" and ok: "config_ok cfg" and n2: "2 \<le> TELNET_LINES cfg"
  shows "\<exists>s' L' p'. exec cfg (Console_out c) s = Some s' \<and>
           (line_out (telnet_rb s') = line_out (telnet_rb s) \<longrightarrow>
              stream_inv cfg F L' R p' s' \<and>
              (c = 10 \<longrightarrow> L' = L @ [p @ [13, 10]] \<and> p' = []) \<and>
              (c \<noteq> 10 \<and> line_in (telnet_rb s') = line_in (telnet_rb s) \<longrightarrow>
                 L' = L \<and> p' = p @ [word_of_int c]))"
proof (cases "c = 10 \<or> length p + 2 = TELNET_LINE_SIZE cfg")
  case True
  define n where "n = TELNET_LINES cfg"
  from inv have h: "ring_holds cfg L R p s" by (simp add: stream_inv_def)
  from holds_switch [OF h ok True] obtain s' where
    s': "telnet_console_out cfg c s = Some (c, s')"
    and h': "ring_holds cfg (L @ [p @ [13, 10]]) (if length L + 1 = R + n then R + 1 else R) [] s'"
    and fr: "send_lock s' = send_lock s + 1" "out_buf s' = out_buf s" "sent s' = sent s"
    unfolding n_def by blast
  from h have RL: "R \<le> length L" "length L < R + n"
    and o: "unat (line_out (telnet_rb s)) = R mod n"
    and i: "unat (line_in (telnet_rb s)) = length L mod n"
    by (simp_all add: ring_holds_def n_def)
  from h' have o': "unat (line_out (telnet_rb s')) = (if length L + 1 = R + n then R + 1 else R) mod n"
    and i': "unat (line_in (telnet_rb s')) = (length L + 1) mod n"
    by (simp_all add: ring_holds_def n_def)
  have moved: "line_in (telnet_rb s') \<noteq> line_in (telnet_rb s)"
  proof -
    have "length L mod n \<noteq> (length L + 1) mod n"
      using n2 by (intro mod_distinct) (simp_all add: n_def)
    with i i' show ?thesis by metis
  qed
  have same: "length L + 1 \<noteq> R + n" if "line_out (telnet_rb s') = line_out (telnet_rb s)"
  proof
    assume "length L + 1 = R + n"
    with o' have "unat (line_out (telnet_rb s')) = (R + 1) mod n" by simp
    moreover have "R mod n \<noteq> (R + 1) mod n"
      using n2 by (intro mod_distinct) (simp_all add: n_def)
    ultimately show False using o that by simp
  qed
  have "stream_inv cfg F (L @ [p @ [13, 10]]) R [] s'"
    if "line_out (telnet_rb s') = line_out (telnet_rb s)"
    using inv h' same [OF that] fr RL
    by (simp add: stream_inv_def flushed_def)
  with s' moved True show ?thesis
    by (intro exI [of _ s'] exI [of _ "L @ [p @ [13, 10]]"] exI [of _ "[]"]) auto
next
  case False
  from inv have h: "ring_holds cfg L R p s" by (simp add: stream_inv_def)
  then have "length p + 1 < TELNET_LINE_SIZE cfg" by (simp add: ring_holds_def)
  with False have c: "c \<noteq> 10" and room: "length p + 2 < TELNET_LINE_SIZE cfg" by auto
  from holds_append [OF h ok c room] obtain s' where
    s': "telnet_console_out cfg c s = Some (c, s')"
    and h': "ring_holds cfg L R (p @ [word_of_int c]) s'"
    and fr: "send_lock s' = send_lock s" "out_buf s' = out_buf s" "sent s' = sent s"
    by blast
  have "stream_inv cfg F L R (p @ [word_of_int c]) s'"
    using inv h' fr by (simp add: stream_inv_def flushed_def)
  with s' c show ?thesis
    by (intro exI [of _ s'] exI [of _ L] exI [of _ "p @ [word_of_int c]"]) auto
qed

lemma stream_step_drain:
  assumes inv: "stream_inv cfg F L R p s" and ok: "config_ok cfg"
  shows "\<exists>s' R'. exec cfg (Run_step 0 (Some b)) s = Some s' \<and> stream_inv cfg F L R' p s' \<and>
           R' = (if R < length L then R + 1 else R)"
proof (cases "R < length L")
  case True
  from inv have h: "ring_holds cfg L R p s" and sem: "send_lock s = length L - R"
    and fl: "flushed s = F @ take R L" and crlf: "list_all ends_crlf L"
    by (simp_all add: stream_inv_def)
  from inv obtain ob where ob: "out_buf s = Some ob" "nb_data ob = []"
    by (auto simp: stream_inv_def split: option.splits)
  from crlf True have ne: "L ! R \<noteq> []"
    by (simp add: list_all_length ends_crlf_nonempty)
  from sem True have pos: "0 < send_lock s" by simp
  from holds_drain [OF h ok True ne pos ob(1), of b] obtain s' where
    s': "telnet_run_step cfg 0 (Some b) s = Some s'"
    and h': "ring_holds cfg L (R + 1) p s'"
    and fr: "send_lock s' = send_lock s - 1" "out_buf s' = Some \<lparr>nb_id = b, nb_data = []\<rparr>"
      "sent s' = sent s @ [ob\<lparr>nb_data := nb_data ob @ L ! R\<rparr>]"
    by blast
  have "flushed s' = F @ take (R + 1) L"
    using fl fr(3) ob(2) True by (simp add: flushed_def take_Suc_conv_app_nth)
  with h' fr sem crlf True have "stream_inv cfg F L (R + 1) p s'"
    by (simp add: stream_inv_def)
  with s' True show ?thesis by simp
next
  case False
  from inv have "R \<le> length L" "send_lock s = length L - R"
    by (simp_all add: stream_inv_def ring_holds_def)
  with False have "send_lock s = 0" by simp
  then have "telnet_run_step cfg 0 (Some b) s = Some s"
    by (simp add: telnet_run_step_def)
  with inv False show ?thesis by simp
qed

lemma crlf_Cons: "crlf (c # cs) = (if c = 10 then [13, 10] else [word_of_int c]) @ crlf cs"
  by (simp add: crlf_def)

lemma crlf_Nil [simp]: "crlf [] = []"
  by (simp add: crlf_def)

lemma no_overwrite_step:
  assumes "exec cfg x s = Some s1"
  shows "no_overwrite cfg (x # xs) s =
           ((case x of Console_out c \<Rightarrow> line_out (telnet_rb s1) = line_out (telnet_rb s)
             | _ \<Rightarrow> True) \<and> no_overwrite cfg xs s1)"
  using assms by simp

lemma no_capacity_switch_step:
  assumes "exec cfg x s = Some s1"
  shows "no_capacity_switch cfg (x # xs) s =
           ((case x of Console_out c \<Rightarrow> c = 10 \<or> line_in (telnet_rb s1) = line_in (telnet_rb s)
             | _ \<Rightarrow> True) \<and> no_capacity_switch cfg xs s1)"
  using assms by simp

lemma run_step:
  assumes "exec cfg x s = Some s1"
  shows "run cfg (x # xs) s = run cfg xs s1"
  using assms by simp

lemma stream_run:
  assumes ok: "config_ok cfg" and n2: "2 \<le> TELNET_LINES cfg"
    and "stream_inv cfg F L R p s" and "list_all is_stream_op xs" and "no_overwrite cfg xs s"
  shows "\<exists>s' L' R' p'. run cfg xs s = Some s' \<and> stream_inv cfg F L' R' p' s' \<and>
           (no_capacity_switch cfg xs s \<longrightarrow>
              concat L' @ p' = concat L @ p @ crlf (outs xs) \<and>
              (outs xs = [] \<longrightarrow> p' = p) \<and>
              (outs xs \<noteq> [] \<and> last (outs xs) = 10 \<longrightarrow> p' = []))"
  using assms(3-)
proof (induction xs arbitrary: L R p s)
  case Nil
  then show ?case by auto
next
  case (Cons x xs)
  show ?case
  proof (cases x)
    case (Console_out c)
    from stream_step_out [OF Cons.prems(1) ok n2, of c] obtain s1 L1 p1 where
      e: "exec cfg (Console_out c) s = Some s1"
      and st: "line_out (telnet_rb s1) = line_out (telnet_rb s) \<Longrightarrow>
              stream_inv cfg F L1 R p1 s1 \<and>
              (c = 10 \<longrightarrow> L1 = L @ [p @ [13, 10]] \<and> p1 = []) \<and>
              (c \<noteq> 10 \<and> line_in (telnet_rb s1) = line_in (telnet_rb s) \<longrightarrow>
                 L1 = L \<and> p1 = p @ [word_of_int c])"
      by blast
    from Cons.prems(3) have same: "line_out (telnet_rb s1) = line_out (telnet_rb s)"
      and now: "no_overwrite cfg xs s1"
      unfolding Console_out no_overwrite_step [OF e] by simp_all
    from st [OF same] have inv1: "stream_inv cfg F L1 R p1 s1"
      and lf: "c = 10 \<Longrightarrow> L1 = L @ [p @ [13, 10]] \<and> p1 = []"
      and ch: "c \<noteq> 10 \<Longrightarrow> line_in (telnet_rb s1) = line_in (telnet_rb s) \<Longrightarrow>
                 L1 = L \<and> p1 = p @ [word_of_int c]"
      by simp_all
    from Cons.prems(2) have ops: "list_all is_stream_op xs" by simp
    from Cons.IH [OF inv1 ops now] obtain s' L' R' p' where
      r: "run cfg xs s1 = Some s'" and inv': "stream_inv cfg F L' R' p' s'"
      and rel: "no_capacity_switch cfg xs s1 \<Longrightarrow>
              concat L' @ p' = concat L1 @ p1 @ crlf (outs xs) \<and>
              (outs xs = [] \<longrightarrow> p' = p1) \<and>
              (outs xs \<noteq> [] \<and> last (outs xs) = 10 \<longrightarrow> p' = [])"
      by blast
    have "concat L' @ p' = concat L @ p @ crlf (outs (x # xs)) \<and>
              (outs (x # xs) = [] \<longrightarrow> p' = p) \<and>
              (outs (x # xs) \<noteq> [] \<and> last (outs (x # xs)) = 10 \<longrightarrow> p' = [])"
      if ncs: "no_capacity_switch cfg (x # xs) s"
    proof -
      from ncs have c: "c = 10 \<or> line_in (telnet_rb s1) = line_in (telnet_rb s)"
        and ncs1: "no_capacity_switch cfg xs s1"
        unfolding Console_out no_capacity_switch_step [OF e] by simp_all
      have first: "concat L1 @ p1 = concat L @ p @ crlf [c]" and p1: "c = 10 \<longrightarrow> p1 = []"
        using c lf ch by (cases "c = 10"; simp add: crlf_def)+
      from rel [OF ncs1] first p1 show ?thesis
        unfolding Console_out by (cases "outs xs = []") (auto simp: crlf_Cons crlf_def)
    qed
    with r inv' show ?thesis
      unfolding Console_out run_step [OF e] by blast
  next
    case (Run_step rc tx)
    with Cons.prems(2) obtain b where rt: "rc = 0" "tx = Some b" by auto
    from stream_step_drain [OF Cons.prems(1) ok, of b] obtain s1 R1 where
      e: "exec cfg (Run_step 0 (Some b)) s = Some s1" and inv1: "stream_inv cfg F L R1 p s1"
      by blast
    from Cons.prems(3) have now: "no_overwrite cfg xs s1"
      unfolding Run_step rt no_overwrite_step [OF e] by simp
    from Cons.prems(2) have ops: "list_all is_stream_op xs" by simp
    from Cons.IH [OF inv1 ops now] obtain s' L' R' p' where
      r: "run cfg xs s1 = Some s'" and inv': "stream_inv cfg F L' R' p' s'"
      and rel: "no_capacity_switch cfg xs s1 \<Longrightarrow>
              concat L' @ p' = concat L @ p @ crlf (outs xs) \<and>
              (outs xs = [] \<longrightarrow> p' = p) \<and>
              (outs xs \<noteq> [] \<and> last (outs xs) = 10 \<longrightarrow> p' = [])"
      by blast
    have "no_capacity_switch cfg xs s1" if "no_capacity_switch cfg (x # xs) s"
      using that unfolding Run_step rt no_capacity_switch_step [OF e] by simp
    with rel r inv' show ?thesis
      unfolding Run_step rt run_step [OF e] by auto
  qed (use Cons.prems(2) in simp_all)
qed

lemma run_append:
  "run cfg (xs @ ys) s = (case run cfg xs s of None \<Rightarrow> None | Some s' \<Rightarrow> run cfg ys s')"
  by (induction xs arbitrary: s) (auto split: option.splits)

lemma drain_all:
  assumes ok: "config_ok cfg" and "stream_inv cfg F L R p s" and "k = length L - R"
  shows "\<exists>s'. run cfg (replicate k (Run_step 0 (Some b))) s = Some s' \<and>
           stream_inv cfg F L (length L) p s'"
  using assms(2-)
proof (induction k arbitrary: R s)
  case 0
  then have "R = length L" by (simp add: stream_inv_def ring_holds_def)
  with 0 show ?case by simp
next
  case (Suc k)
  then have lt: "R < length L" by simp
  from stream_step_drain [OF Suc.prems(1) ok, of b] lt obtain s1 where
    e: "exec cfg (Run_step 0 (Some b)) s = Some s1" and inv1: "stream_inv cfg F L (R + 1) p s1"
    by auto
  from Suc.prems(2) have "k = length L - (R + 1)" by simp
  from Suc.IH [OF inv1 this] show ?case
    unfolding replicate_Suc run_step [OF e] .
qed

lemma example_session_fresh: "fresh_session example_config example_session"
  by code_simp

lemma example_config_ok: "config_ok example_config \<and> 2 \<le> TELNET_LINES example_config"
  by (simp add: config_ok_def example_config_def)

text \<open>A switch by itself: the partial line joins the lines completed as it is.\<close>

lemma switch_holds:
  assumes h: "ring_holds cfg L R p s" and ok: "config_ok cfg"
  shows "\<exists>s'. telnet_rb_switch cfg s = Some s' \<and>
           ring_holds cfg (L @ [p])
             (if length L + 1 = R + TELNET_LINES cfg then R + 1 else R) [] s' \<and>
           send_lock s' = send_lock s + 1 \<and> out_buf s' = out_buf s \<and> sent s' = sent s"
proof -
  define n where "n = TELNET_LINES cfg"
  define i where "i = length L mod n"
  define i' where "i' = (length L + 1) mod n"
  define R' where "R' = (if length L + 1 = R + n then R + 1 else R)"
  from ok have n: "0 < n" "n \<le> 65536" and cap: "2 \<le> TELNET_LINE_SIZE cfg"
    by (simp_all add: config_ok_def n_def)
  from h have wt: "well_typed cfg s" and li: "unat (line_in (telnet_rb s)) = i"
    and lo: "unat (line_out (telnet_rb s)) = R mod n"
    and RL: "R \<le> length L" "length L < R + n"
    and stored: "\<And>j. R \<le> j \<Longrightarrow> j < length L \<Longrightarrow>
          slot_bytes (l_bufs (telnet_rb s) ! (j mod n)) = L ! j \<and>
          unat (len (l_bufs (telnet_rb s) ! (j mod n))) = length (L ! j)"
    and p: "slot_bytes (l_bufs (telnet_rb s) ! i) = p"
      "unat (len (l_bufs (telnet_rb s) ! i)) = length p"
    by (simp_all add: ring_holds_def n_def i_def)
  have i: "i < n" and i'n: "i' < n" using n by (simp_all add: i_def i'_def)
  have i'i: "i' = (i + 1) mod n"
    by (simp add: i_def i'_def mod_Suc_eq)
  have len: "length (l_bufs (telnet_rb s)) = TELNET_LINES cfg"
    using wt by (simp add: well_typed_def)
  have in1: "unat (line_in (telnet_rb s)) < TELNET_LINES cfg"
    using li i by (simp add: n_def)
  have out1: "unat (line_out (telnet_rb s)) < TELNET_LINES cfg"
    using lo n by (simp add: n_def)
  from switch_result [OF len _ in1 out1] n(2) obtain s' where
    sw: "telnet_rb_switch cfg s = Some s'"
    and in': "unat (line_in (telnet_rb s')) = i'"
    and out': "unat (line_out (telnet_rb s')) = (if i' = R mod n then (R mod n + 1) mod n else R mod n)"
    and bufs': "l_bufs (telnet_rb s') = (l_bufs (telnet_rb s))[i' := (l_bufs (telnet_rb s) ! i')\<lparr>len := 0\<rparr>]"
    and frame: "send_lock s' = send_lock s + 1" "out_buf s' = out_buf s" "sent s' = sent s"
    unfolding n_def [symmetric] by (auto simp: li lo i'i)
  have ov: "(i' = R mod n) = (length L + 1 = R + n)"
  proof (cases "length L + 1 = R + n")
    case True
    then show ?thesis by (simp add: i'_def)
  next
    case False
    with RL have "R < length L + 1" "length L + 1 < R + n" by simp_all
    then have "R mod n \<noteq> (length L + 1) mod n" by (rule mod_distinct)
    with False show ?thesis by (simp add: i'_def)
  qed
  have out'': "unat (line_out (telnet_rb s')) = R' mod n"
    using out' unfolding ov R'_def by (simp add: mod_Suc_eq)
  have R': "R' \<le> length L + 1" "length L + 1 < R' + n"
    using RL n by (auto simp: R'_def)
  have "length (buf ((l_bufs (telnet_rb s) ! i')\<lparr>len := 0\<rparr>)) = TELNET_LINE_SIZE cfg"
    using well_typed_nth [OF wt, of i'] i'n by (simp add: n_def)
  then have wt': "well_typed cfg s'"
    using wt unfolding well_typed_def bufs' by (simp add: list_all_update)
  have newest: "l_bufs (telnet_rb s') ! i = l_bufs (telnet_rb s) ! i" if "R' \<le> length L"
  proof -
    from that RL have "length L + 1 < length L + n" by (auto simp: R'_def split: if_splits)
    then have "length L mod n \<noteq> (length L + 1) mod n"
      by (intro mod_distinct) simp_all
    then have "i \<noteq> i'" by (simp add: i_def i'_def)
    then show ?thesis by (simp add: bufs')
  qed
  have older: "l_bufs (telnet_rb s') ! (j mod n) = l_bufs (telnet_rb s) ! (j mod n)"
    if "R' \<le> j" "j < length L" for j
  proof -
    have "j mod n \<noteq> (length L + 1) mod n"
      using that RL by (intro mod_distinct) (auto simp: R'_def split: if_splits)
    then show ?thesis by (simp add: bufs' i'_def)
  qed
  have fresh: "len (l_bufs (telnet_rb s') ! i') = 0"
    using i'n len by (simp add: bufs' n_def)
  have st: "slot_bytes (l_bufs (telnet_rb s') ! (j mod n)) = (L @ [p]) ! j \<and>
            unat (len (l_bufs (telnet_rb s') ! (j mod n))) = length ((L @ [p]) ! j)"
    if "R' \<le> j" "j < length L + 1" for j
  proof (cases "j = length L")
    case True
    with that newest p show ?thesis
      by (simp add: i_def [symmetric])
  next
    case False
    with that have j: "j < length L" by simp
    from that RL have "R \<le> j" by (auto simp: R'_def split: if_splits)
    with older [OF that(1) j] stored [OF _ j] j show ?thesis
      by (simp add: nth_append)
  qed
  have st': "\<forall>j \<in> {R' ..< length (L @ [p])}.
      slot_bytes (l_bufs (telnet_rb s') ! (j mod n)) = (L @ [p]) ! j \<and>
      unat (len (l_bufs (telnet_rb s') ! (j mod n))) = length ((L @ [p]) ! j)"
    using st by simp
  have empty: "slot_bytes (l_bufs (telnet_rb s') ! i') = []"
    "unat (len (l_bufs (telnet_rb s') ! i')) = length ([] :: 8 word list)"
    using fresh by (simp_all add: slot_bytes_def)
  have "ring_holds cfg (L @ [p]) R' [] s'"
    unfolding ring_holds_def n_def [symmetric]
    using wt' in' out'' R' st' empty cap
    by (simp add: i'_def)
  then show ?thesis
    using sw frame unfolding R'_def n_def by auto
qed

text \<open>The timer switches the partial line when it has reached the threshold.\<close>

lemma holds_timer:
  assumes h: "ring_holds cfg L R p s" and ok: "config_ok cfg"
  shows "\<exists>s'. telnet_send_prematurely cfg s = Some s' \<and>
           (if TELNET_THRESHOLD cfg \<le> int (length p)
            then ring_holds cfg (L @ [p])
                   (if length L + 1 = R + TELNET_LINES cfg then R + 1 else R) [] s' \<and>
                 send_lock s' = send_lock s + 1 \<and> out_buf s' = out_buf s \<and> sent s' = sent s
            else s' = s)"
proof -
  from ok have n: "0 < TELNET_LINES cfg" by (simp add: config_ok_def)
  from h have len: "length (l_bufs (telnet_rb s)) = TELNET_LINES cfg"
    and li: "unat (line_in (telnet_rb s)) = length L mod TELNET_LINES cfg"
    and p: "unat (len (l_bufs (telnet_rb s) ! (length L mod TELNET_LINES cfg))) = length p"
    by (simp_all add: ring_holds_def well_typed_def)
  have pu: "uint (len (l_bufs (telnet_rb s) ! (length L mod TELNET_LINES cfg))) = int (length p)"
    unfolding uint_nat p by (rule refl)
  have g: "array_get (l_bufs (telnet_rb s)) (telnet_rb_get_line_in s) =
      Some (l_bufs (telnet_rb s) ! (length L mod TELNET_LINES cfg))"
    using len li n by (simp add: array_get_def telnet_rb_get_line_in_def)
  have e: "telnet_send_prematurely cfg s =
      (if TELNET_THRESHOLD cfg \<le> int (length p) then telnet_rb_switch cfg s else Some s)"
    unfolding telnet_send_prematurely_def g by (simp add: pu)
  from switch_holds [OF h ok] show ?thesis
    unfolding e by auto
qed

text \<open>The sender passes over an empty line.\<close>

lemma holds_skip:
  assumes h: "ring_holds cfg L R p s" and ok: "config_ok cfg"
    and R: "R < length L" and ne: "L ! R = []" and sem: "0 < send_lock s"
  shows "\<exists>s'. telnet_run_step cfg rc tx s = Some s' \<and>
           ring_holds cfg L (R + 1) p s' \<and>
           send_lock s' = send_lock s - 1 \<and> out_buf s' = out_buf s \<and> sent s' = sent s"
proof -
  define n where "n = TELNET_LINES cfg"
  define ko where "ko = R mod n"
  define s0 where "s0 = s\<lparr>send_lock := send_lock s - 1\<rparr>"
  from ok have n: "0 < n" "n \<le> 65536"
    by (simp_all add: config_ok_def n_def)
  from h have wt: "well_typed cfg s" and li: "unat (line_in (telnet_rb s)) = length L mod n"
    and lo: "unat (line_out (telnet_rb s)) = ko"
    and RL: "R \<le> length L" "length L < R + n"
    and stored: "\<And>j. R \<le> j \<Longrightarrow> j < length L \<Longrightarrow>
          slot_bytes (l_bufs (telnet_rb s) ! (j mod n)) = L ! j \<and>
          unat (len (l_bufs (telnet_rb s) ! (j mod n))) = length (L ! j)"
    and p: "slot_bytes (l_bufs (telnet_rb s) ! (length L mod n)) = p"
      "unat (len (l_bufs (telnet_rb s) ! (length L mod n))) = length p"
      "length p + 1 < TELNET_LINE_SIZE cfg"
    by (simp_all add: ring_holds_def n_def ko_def)
  have ko: "ko < n" using n by (simp add: ko_def)
  have len: "length (l_bufs (telnet_rb s)) = n"
    using wt by (simp add: well_typed_def n_def)
  from stored [of R] R ne have "unat (len (l_bufs (telnet_rb s) ! ko)) = 0"
    by (simp add: ko_def)
  then have z: "len (l_bufs (telnet_rb s) ! ko) = 0"
    by (simp add: unat_eq_0)
  define w where "w = (if unat (line_out (telnet_rb s) + 1) = n then 0 else line_out (telnet_rb s) + 1)"
  have w: "unat w = (R + 1) mod n"
    unfolding w_def using wrap_mod [of "line_out (telnet_rb s)" n] lo ko n
    by (simp add: ko_def mod_Suc_eq)
  define s' where "s' = s\<lparr>telnet_rb := (telnet_rb s)\<lparr>line_out := w\<rparr>, send_lock := send_lock s - 1\<rparr>"
  have get: "telnet_rb_get_line_out cfg s0 =
      Some (None, s0\<lparr>telnet_rb := (telnet_rb s)\<lparr>line_out := w\<rparr>\<rparr>)"
    using ko len z lo
    by (simp add: telnet_rb_get_line_out_def Let_def array_get_def s0_def w_def n_def)
  have "telnet_send cfg rc tx s0 = Some (True, s0\<lparr>telnet_rb := (telnet_rb s)\<lparr>line_out := w\<rparr>\<rparr>)"
    by (simp add: telnet_send_def get)
  then have send: "telnet_send cfg rc tx (s\<lparr>send_lock := send_lock s - 1\<rparr>) = Some (True, s')"
    by (simp add: s0_def s'_def)
  have step: "telnet_run_step cfg rc tx s = Some s'"
    using sem send by (simp add: telnet_run_step_def)
  have wt': "well_typed cfg s'"
    using wt unfolding well_typed_def s'_def by simp
  have st': "\<forall>j \<in> {R + 1 ..< length L}.
      slot_bytes (l_bufs (telnet_rb s') ! (j mod n)) = L ! j \<and>
      unat (len (l_bufs (telnet_rb s') ! (j mod n))) = length (L ! j)"
    using stored by (simp add: s'_def)
  have "ring_holds cfg L (R + 1) p s'"
    unfolding ring_holds_def n_def [symmetric]
    using wt' R RL st' p w li
    by (simp add: s'_def)
  then show ?thesis using step by (simp add: s'_def)
qed

lemma keeps_unread_step:
  assumes "exec cfg x s = Some s1"
  shows "keeps_unread cfg (x # xs) s =
           ((case x of Console_out c \<Rightarrow> line_out (telnet_rb s1) = line_out (telnet_rb s)
             | Send_prematurely \<Rightarrow> line_out (telnet_rb s1) = line_out (telnet_rb s)
             | _ \<Rightarrow> True) \<and> keeps_unread cfg xs s1)"
  using assms by simp

lemma switched_step:
  assumes "exec cfg x s = Some s1"
  shows "switched cfg (x # xs) s = switch_record x s s1 @ switched cfg xs s1"
  using assms by simp

lemma fresh_session_flush_inv:
  assumes "fresh_session cfg s" "config_ok cfg"
  shows "flush_inv cfg (flushed s) [] 0 [] s"
  using assms fresh_ring_holds [of cfg s]
  by (simp add: flush_inv_def fresh_session_def)

lemma holds_line_in:
  assumes "ring_holds cfg L R p s" "ring_holds cfg L' R' p' s'" "config_ok cfg"
  shows "(line_in (telnet_rb s') = line_in (telnet_rb s)) =
         (length L' mod TELNET_LINES cfg = length L mod TELNET_LINES cfg)"
  using assms by (simp add: ring_holds_def word_unat_eq_iff)

lemma holds_line_out:
  assumes "ring_holds cfg L R p s" "ring_holds cfg L' R' p' s'"
  shows "(line_out (telnet_rb s') = line_out (telnet_rb s)) =
         (R' mod TELNET_LINES cfg = R mod TELNET_LINES cfg)"
  using assms by (simp add: ring_holds_def word_unat_eq_iff)

lemma flush_switch:
  assumes inv: "flush_inv cfg F L R p s" and n2: "2 \<le> TELNET_LINES cfg"
    and h': "ring_holds cfg (L @ [q])
               (if length L + 1 = R + TELNET_LINES cfg then R + 1 else R) [] s'"
    and fr: "send_lock s' = send_lock s + 1" "out_buf s' = out_buf s" "sent s' = sent s"
    and same: "line_out (telnet_rb s') = line_out (telnet_rb s)"
  shows "flush_inv cfg F (L @ [q]) R [] s' \<and>
         line_in (telnet_rb s') \<noteq> line_in (telnet_rb s) \<and>
         slot_bytes (l_bufs (telnet_rb s') ! unat (line_in (telnet_rb s))) = q"
proof -
  define n where "n = TELNET_LINES cfg"
  from inv have h: "ring_holds cfg L R p s" by (simp add: flush_inv_def)
  then have RL: "R \<le> length L" "length L < R + n"
    and i: "unat (line_in (telnet_rb s)) = length L mod n"
    by (simp_all add: ring_holds_def n_def)
  have no: "length L + 1 \<noteq> R + n"
  proof
    assume a: "length L + 1 = R + n"
    with h' have "ring_holds cfg (L @ [q]) (R + 1) [] s'" by (simp add: n_def)
    from holds_line_out [OF h this] same have "(R + 1) mod n = R mod n"
      by (simp add: n_def)
    moreover have "R mod n \<noteq> (R + 1) mod n"
      using n2 by (intro mod_distinct) (simp_all add: n_def)
    ultimately show False by simp
  qed
  with h' have h'': "ring_holds cfg (L @ [q]) R [] s'" by (simp add: n_def)
  have "length L mod n \<noteq> (length L + 1) mod n"
    using n2 by (intro mod_distinct) (simp_all add: n_def)
  moreover from h'' have "unat (line_in (telnet_rb s')) = (length L + 1) mod n"
    by (simp add: ring_holds_def n_def)
  ultimately have moved: "line_in (telnet_rb s') \<noteq> line_in (telnet_rb s)"
    using i by auto
  from h'' RL have "slot_bytes (l_bufs (telnet_rb s') ! (length L mod n)) = (L @ [q]) ! length L"
    unfolding ring_holds_def n_def [symmetric] by auto
  then have q: "slot_bytes (l_bufs (telnet_rb s') ! unat (line_in (telnet_rb s))) = q"
    by (simp add: i)
  have "flush_inv cfg F (L @ [q]) R [] s'"
    using inv h'' fr RL by (simp add: flush_inv_def flushed_def)
  with moved q show ?thesis by simp
qed

lemma flush_step_out:
  assumes inv: "flush_inv cfg F L R p s" and ok: "config_ok cfg" and n2: "2 \<le> TELNET_LINES cfg"
  shows "\<exists>s' p'. exec cfg (Console_out c) s = Some s' \<and>
           (line_out (telnet_rb s') = line_out (telnet_rb s) \<longrightarrow>
              flush_inv cfg F (L @ map snd (switch_record (Console_out c) s s')) R p' s' \<and>
              list_all (\<lambda>(w, l). w = By_producer \<longrightarrow> ends_crlf l)
                (switch_record (Console_out c) s s'))"
proof (cases "c = 10 \<or> length p + 2 = TELNET_LINE_SIZE cfg")
  case True
  from inv have h: "ring_holds cfg L R p s" by (simp add: flush_inv_def)
  from holds_switch [OF h ok True] obtain s' where
    s': "telnet_console_out cfg c s = Some (c, s')"
    and h': "ring_holds cfg (L @ [p @ [13, 10]])
               (if length L + 1 = R + TELNET_LINES cfg then R + 1 else R) [] s'"
    and fr: "send_lock s' = send_lock s + 1" "out_buf s' = out_buf s" "sent s' = sent s"
    by blast
  have "flush_inv cfg F (L @ map snd (switch_record (Console_out c) s s')) R [] s' \<and>
        list_all (\<lambda>(w, l). w = By_producer \<longrightarrow> ends_crlf l) (switch_record (Console_out c) s s')"
    if "line_out (telnet_rb s') = line_out (telnet_rb s)"
    using flush_switch [OF inv n2 h' fr that] by (simp add: switch_record_def ends_crlf_def)
  with s' show ?thesis by auto
next
  case False
  from inv have h: "ring_holds cfg L R p s" by (simp add: flush_inv_def)
  then have "length p + 1 < TELNET_LINE_SIZE cfg" by (simp add: ring_holds_def)
  with False have c: "c \<noteq> 10" and room: "length p + 2 < TELNET_LINE_SIZE cfg" by auto
  from holds_append [OF h ok c room] obtain s' where
    s': "telnet_console_out cfg c s = Some (c, s')"
    and h': "ring_holds cfg L R (p @ [word_of_int c]) s'"
    and fr: "send_lock s' = send_lock s" "out_buf s' = out_buf s" "sent s' = sent s"
    by blast
  from holds_line_in [OF h h' ok] have "switch_record (Console_out c) s s' = []"
    by (simp add: switch_record_def)
  moreover have "flush_inv cfg F L R (p @ [word_of_int c]) s'"
    using inv h' fr by (simp add: flush_inv_def flushed_def)
  ultimately show ?thesis using s' by auto
qed

lemma flush_step_timer:
  assumes inv: "flush_inv cfg F L R p s" and ok: "config_ok cfg" and n2: "2 \<le> TELNET_LINES cfg"
  shows "\<exists>s' p'. exec cfg Send_prematurely s = Some s' \<and>
           (line_out (telnet_rb s') = line_out (telnet_rb s) \<longrightarrow>
              flush_inv cfg F (L @ map snd (switch_record Send_prematurely s s')) R p' s')"
proof (cases "TELNET_THRESHOLD cfg \<le> int (length p)")
  case True
  from inv have h: "ring_holds cfg L R p s" by (simp add: flush_inv_def)
  then have wr: "slot_bytes (l_bufs (telnet_rb s) ! unat (line_in (telnet_rb s))) = p"
    by (simp add: ring_holds_def)
  from holds_timer [OF h ok] True obtain s' where
    s': "telnet_send_prematurely cfg s = Some s'"
    and h': "ring_holds cfg (L @ [p])
               (if length L + 1 = R + TELNET_LINES cfg then R + 1 else R) [] s'"
    and fr: "send_lock s' = send_lock s + 1" "out_buf s' = out_buf s" "sent s' = sent s"
    by auto
  have "flush_inv cfg F (L @ map snd (switch_record Send_prematurely s s')) R [] s'"
    if "line_out (telnet_rb s') = line_out (telnet_rb s)"
    using flush_switch [OF inv n2 h' fr that] wr by (simp add: switch_record_def)
  with s' show ?thesis by auto
next
  case False
  from inv have h: "ring_holds cfg L R p s" by (simp add: flush_inv_def)
  from holds_timer [OF h ok] False have "telnet_send_prematurely cfg s = Some s"
    by auto
  moreover have "switch_record Send_prematurely s s = []"
    by (simp add: switch_record_def)
  ultimately show ?thesis using inv by auto
qed

lemma flush_step_drain:
  assumes inv: "flush_inv cfg F L R p s" and ok: "config_ok cfg"
  shows "\<exists>s' R'. exec cfg (Run_step 0 (Some b)) s = Some s' \<and> flush_inv cfg F L R' p s' \<and>
           switch_record (Run_step 0 (Some b)) s s' = []"
proof -
  have sr: "switch_record (Run_step 0 (Some b)) s t = []" for t
    by (simp add: switch_record_def)
  from inv have h: "ring_holds cfg L R p s" and sem: "send_lock s = length L - R"
    and fl: "flushed s = F @ filter (\<lambda>l. l \<noteq> []) (take R L)"
    by (simp_all add: flush_inv_def)
  from inv obtain ob where ob: "out_buf s = Some ob" "nb_data ob = []"
    by (auto simp: flush_inv_def split: option.splits)
  show ?thesis
  proof (cases "R < length L")
    case True
    from sem True have pos: "0 < send_lock s" by simp
    show ?thesis
    proof (cases "L ! R = []")
      case ne: False
      from holds_drain [OF h ok True ne pos ob(1), of b] obtain s' where
        s': "telnet_run_step cfg 0 (Some b) s = Some s'"
        and h': "ring_holds cfg L (R + 1) p s'"
        and fr: "send_lock s' = send_lock s - 1" "out_buf s' = Some \<lparr>nb_id = b, nb_data = []\<rparr>"
          "sent s' = sent s @ [ob\<lparr>nb_data := nb_data ob @ L ! R\<rparr>]"
        by blast
      have "flushed s' = F @ filter (\<lambda>l. l \<noteq> []) (take (R + 1) L)"
        using fl fr(3) ob(2) True ne by (simp add: flushed_def take_Suc_conv_app_nth)
      with h' fr sem True have "flush_inv cfg F L (R + 1) p s'"
        by (simp add: flush_inv_def)
      with s' sr show ?thesis by auto
    next
      case e: True
      from holds_skip [OF h ok True e pos, of 0 "Some b"] obtain s' where
        s': "telnet_run_step cfg 0 (Some b) s = Some s'"
        and h': "ring_holds cfg L (R + 1) p s'"
        and fr: "send_lock s' = send_lock s - 1" "out_buf s' = out_buf s" "sent s' = sent s"
        by blast
      have "flushed s' = F @ filter (\<lambda>l. l \<noteq> []) (take (R + 1) L)"
        using fl fr(3) True e by (simp add: flushed_def take_Suc_conv_app_nth)
      with h' fr sem True ob have "flush_inv cfg F L (R + 1) p s'"
        by (simp add: flush_inv_def)
      with s' sr show ?thesis by auto
    qed
  next
    case False
    from h have "R \<le> length L" by (simp add: ring_holds_def)
    with False sem have "send_lock s = 0" by simp
    then have "telnet_run_step cfg 0 (Some b) s = Some s"
      by (simp add: telnet_run_step_def)
    with inv sr show ?thesis by auto
  qed
qed

lemma flush_run:
  assumes ok: "config_ok cfg" and n2: "2 \<le> TELNET_LINES cfg"
    and "flush_inv cfg F L R p s" and "list_all is_flush_op xs" and "keeps_unread cfg xs s"
  shows "\<exists>s' R' p'. run cfg xs s = Some s' \<and>
           flush_inv cfg F (L @ map snd (switched cfg xs s)) R' p' s' \<and>
           list_all (\<lambda>(w, l). w = By_producer \<longrightarrow> ends_crlf l) (switched cfg xs s)"
  using assms(3-)
proof (induction xs arbitrary: L R p s)
  case Nil
  then show ?case by auto
next
  case (Cons x xs)
  from Cons.prems(2) have ops: "list_all is_flush_op xs" by simp
  have "\<exists>s1 R1 p1. exec cfg x s = Some s1 \<and> keeps_unread cfg xs s1 \<and>
          flush_inv cfg F (L @ map snd (switch_record x s s1)) R1 p1 s1 \<and>
          list_all (\<lambda>(w, l). w = By_producer \<longrightarrow> ends_crlf l) (switch_record x s s1)"
  proof (cases x)
    case (Console_out c)
    from flush_step_out [OF Cons.prems(1) ok n2, of c] obtain s1 p1 where
      e: "exec cfg (Console_out c) s = Some s1"
      and st: "line_out (telnet_rb s1) = line_out (telnet_rb s) \<longrightarrow>
              flush_inv cfg F (L @ map snd (switch_record (Console_out c) s s1)) R p1 s1 \<and>
              list_all (\<lambda>(w, l). w = By_producer \<longrightarrow> ends_crlf l)
                (switch_record (Console_out c) s s1)"
      by blast
    from Cons.prems(3) have "line_out (telnet_rb s1) = line_out (telnet_rb s)"
      and "keeps_unread cfg xs s1"
      unfolding Console_out keeps_unread_step [OF e] by simp_all
    with st e show ?thesis unfolding Console_out by blast
  next
    case Send_prematurely
    from flush_step_timer [OF Cons.prems(1) ok n2] obtain s1 p1 where
      e: "exec cfg Send_prematurely s = Some s1"
      and st: "line_out (telnet_rb s1) = line_out (telnet_rb s) \<longrightarrow>
              flush_inv cfg F (L @ map snd (switch_record Send_prematurely s s1)) R p1 s1"
      by blast
    from Cons.prems(3) have "line_out (telnet_rb s1) = line_out (telnet_rb s)"
      and "keeps_unread cfg xs s1"
      unfolding Send_prematurely keeps_unread_step [OF e] by simp_all
    moreover have "list_all (\<lambda>(w, l). w = By_producer \<longrightarrow> ends_crlf l)
        (switch_record Send_prematurely s s1)"
      by (simp add: switch_record_def)
    ultimately show ?thesis using st e unfolding Send_prematurely by blast
  next
    case (Run_step rc tx)
    with Cons.prems(2) obtain b where rt: "rc = 0" "tx = Some b" by auto
    from flush_step_drain [OF Cons.prems(1) ok, of b] obtain s1 R1 where
      e: "exec cfg (Run_step 0 (Some b)) s = Some s1" and inv1: "flush_inv cfg F L R1 p s1"
      and sr: "switch_record (Run_step 0 (Some b)) s s1 = []"
      by blast
    from Cons.prems(3) have "keeps_unread cfg xs s1"
      unfolding Run_step rt keeps_unread_step [OF e] by simp
    with e inv1 sr show ?thesis unfolding Run_step rt by auto
  qed (use Cons.prems(2) in simp_all)
  then obtain s1 R1 p1 where e: "exec cfg x s = Some s1" and k: "keeps_unread cfg xs s1"
    and inv1: "flush_inv cfg F (L @ map snd (switch_record x s s1)) R1 p1 s1"
    and all1: "list_all (\<lambda>(w, l). w = By_producer \<longrightarrow> ends_crlf l) (switch_record x s s1)"
    by blast
  from Cons.IH [OF inv1 ops k] obtain s' R' p' where
    r: "run cfg xs s1 = Some s'"
    and inv': "flush_inv cfg F ((L @ map snd (switch_record x s s1)) @ map snd (switched cfg xs s1)) R' p' s'"
    and all': "list_all (\<lambda>(w, l). w = By_producer \<longrightarrow> ends_crlf l) (switched cfg xs s1)"
    by blast
  from r inv' all1 all' show ?case
    unfolding run_step [OF e] switched_step [OF e] by auto
qed

lemma filter_snd:
  "filter (\<lambda>l. l \<noteq> []) (map snd ys) = map snd (filter (\<lambda>(w, l). l \<noteq> []) ys)"
  by (induction ys) auto

text \<open>
  Claim C5, as stated, fails for the idle-flush timer: \<open>telnet_send_prematurely\<close> switches
  the slot as it is, and the partial line \<open>a\<close> reaches the transport without terminator.
\<close>

theorem timer_flush_has_no_terminator:
  "map_option flushed
     (run example_config [Console_out 97, Send_prematurely, Run_step 0 (Some 8)] example_session) =
     Some [[97]] \<and>
   \<not> ends_crlf [97]"
  by code_simp

text \<open>
  Claim C5, amended. Take any run of producer calls, timer expiries and successful turns of
  the sender that starts from a fresh ring with the semaphore at 0 and an empty output
  buffer, and in which no overwrite occurs. The lines handed to the transport are, in
  order, the slots switched so far that are not empty. Each slot the producer switched,
  at a line feed or at the slot's capacity, ends with carriage return and line feed; each
  slot the timer switched is handed over as the partial line the write slot held when the
  timer expired, with nothing appended. So every line handed over ends with the
  terminator or is such a partial line.
\<close>

theorem sent_lines_end_crlf:
  assumes "config_ok cfg" and "2 \<le> TELNET_LINES cfg" and "fresh_session cfg s0"
    and "list_all is_flush_op xs" and "keeps_unread cfg xs s0"
  shows "\<exists>s k. run cfg xs s0 = Some s \<and>
           drop (length (flushed s0)) (flushed s) =
             map snd (filter (\<lambda>(w, l). l \<noteq> []) (take k (switched cfg xs s0))) \<and>
           list_all (\<lambda>(w, l). w = By_producer \<longrightarrow> ends_crlf l) (switched cfg xs s0) \<and>
           list_all (\<lambda>l. ends_crlf l \<or> (By_timer, l) \<in> set (switched cfg xs s0))
             (drop (length (flushed s0)) (flushed s))"
proof -
  from flush_run [OF assms(1,2) fresh_session_flush_inv [OF assms(3,1)] assms(4,5)]
  obtain s R p where r: "run cfg xs s0 = Some s"
    and inv: "flush_inv cfg (flushed s0) (map snd (switched cfg xs s0)) R p s"
    and all: "list_all (\<lambda>(w, l). w = By_producer \<longrightarrow> ends_crlf l) (switched cfg xs s0)"
    by auto
  from inv have "drop (length (flushed s0)) (flushed s) =
      filter (\<lambda>l. l \<noteq> []) (take R (map snd (switched cfg xs s0)))"
    by (simp add: flush_inv_def)
  then have fl: "drop (length (flushed s0)) (flushed s) =
      map snd (filter (\<lambda>(w, l). l \<noteq> []) (take R (switched cfg xs s0)))"
    by (simp add: take_map filter_snd)
  have "ends_crlf l \<or> (By_timer, l) \<in> set (switched cfg xs s0)"
    if "l \<in> set (drop (length (flushed s0)) (flushed s))" for l
  proof -
    from that obtain w where "(w, l) \<in> set (take R (switched cfg xs s0))"
      unfolding fl by auto
    then have m: "(w, l) \<in> set (switched cfg xs s0)"
      using set_take_subset [of R "switched cfg xs s0"] by blast
    with all have "w = By_producer \<longrightarrow> ends_crlf l"
      by (auto simp: list_all_iff)
    with m show ?thesis by (cases w) auto
  qed
  then have "list_all (\<lambda>l. ends_crlf l \<or> (By_timer, l) \<in> set (switched cfg xs s0))
     (drop (length (flushed s0)) (flushed s))"
    by (simp add: list_all_iff)
  with r fl all show ?thesis by blast
qed

theorem sent_lines_end_crlf_witness:
  "config_ok example_config \<and> 2 \<le> TELNET_LINES example_config \<and>
   fresh_session example_config example_session \<and>
   list_all is_flush_op example_flush \<and>
   keeps_unread example_config example_flush example_session \<and>
   (\<exists>s k. run example_config example_flush example_session = Some s \<and>
      drop (length (flushed example_session)) (flushed s) =
        map snd (filter (\<lambda>(w, l). l \<noteq> [])
          (take k (switched example_config example_flush example_session))) \<and>
      list_all (\<lambda>(w, l). w = By_producer \<longrightarrow> ends_crlf l)
        (switched example_config example_flush example_session) \<and>
      list_all (\<lambda>l. ends_crlf l \<or>
                  (By_timer, l) \<in> set (switched example_config example_flush example_session))
        (drop (length (flushed example_session)) (flushed s))) \<and>
   switched example_config example_flush example_session =
     [(By_timer, [62]), (By_producer, [97, 98, 99, 100, 101, 102, 13, 10]),
      (By_producer, [104, 105, 106, 13, 10])] \<and>
   map_option flushed (run example_config example_flush example_session) =
     Some [[62], [97, 98, 99, 100, 101, 102, 13, 10], [104, 105, 106, 13, 10]]"
proof -
  have h1: "config_ok example_config" and h2: "2 \<le> TELNET_LINES example_config"
    using example_config_ok by simp_all
  have h3: "fresh_session example_config example_session"
    by (rule example_session_fresh)
  have h4: "list_all is_flush_op example_flush" by code_simp
  have h5: "keeps_unread example_config example_flush example_session" by code_simp
  have v1: "switched example_config example_flush example_session =
     [(By_timer, [62]), (By_producer, [97, 98, 99, 100, 101, 102, 13, 10]),
      (By_producer, [104, 105, 106, 13, 10])]"
    by code_simp
  have v2: "map_option flushed (run example_config example_flush example_session) =
     Some [[62], [97, 98, 99, 100, 101, 102, 13, 10], [104, 105, 106, 13, 10]]"
    by code_simp
  from sent_lines_end_crlf [OF h1 h2 h3 h4 h5] h1 h2 h3 h4 h5 v1 v2 show ?thesis by blast
qed

text \<open>
  The two conditions are needed. With a count left on the semaphore, or after an
  overwrite, a turn of the sender takes the write slot itself and hands over a partial
  line the timer never switched.
\<close>

lemma pending_count_sends_partial_line:
  "fresh_ring example_config (example_session\<lparr>send_lock := 1\<rparr>) \<and>
   map_option flushed
     (run example_config [Console_out 98, Run_step 0 (Some 8)] (example_session\<lparr>send_lock := 1\<rparr>)) =
     Some [[98]]"
  by code_simp

lemma overwrite_sends_partial_line:
  "map_option flushed
     (run (example_config\<lparr>TELNET_LINES := 2\<rparr>)
        (map Console_out [97, 10, 98, 10] @ [Run_step 0 (Some 8), Console_out 120, Run_step 0 (Some 9)])
        (telnet_accept 1 0 0 (Some 7) (telnet_boot (example_config\<lparr>TELNET_LINES := 2\<rparr>) None))) =
     Some [[98, 13, 10], [120]]"
  by code_simp

text \<open>
  Claim C4, as stated, fails where a slot fills up: with slots of 8 bytes and no overwrite,
  the lines sent for \<open>abcdefghij\<close> and a line feed carry a terminator in the middle of the
  input.
\<close>

theorem capacity_switch_inserts_terminator:
  "no_overwrite example_config (example_input @ [Run_step 0 (Some 8), Run_step 0 (Some 9)])
     example_session \<and>
   map_option send_lock
     (run example_config (example_input @ [Run_step 0 (Some 8), Run_step 0 (Some 9)])
        example_session) = Some 0 \<and>
   map_option (concat \<circ> flushed)
     (run example_config (example_input @ [Run_step 0 (Some 8), Run_step 0 (Some 9)])
        example_session) =
     Some [97, 98, 99, 100, 101, 102, 13, 10, 104, 105, 106, 13, 10] \<and>
   crlf (outs example_input) = [97, 98, 99, 100, 101, 102, 103, 104, 105, 106, 13, 10]"
  by code_simp

text \<open>
  Claim C4, amended. In a stream that starts with a fresh session, in which no overwrite
  occurs and no slot is switched for its capacity, once the sender has taken every line
  signalled to it the lines sent, followed by the partial line still in the write slot,
  are the input with every line feed replaced by carriage return and line feed; when the
  input ends with a line feed the lines sent alone are.
\<close>

theorem flushed_is_input_with_crlf:
  assumes "config_ok cfg" and "2 \<le> TELNET_LINES cfg" and "fresh_session cfg s0"
    and "list_all is_stream_op xs" and "no_overwrite cfg xs s0"
    and "no_capacity_switch cfg xs s0"
  shows "\<exists>s s'. run cfg xs s0 = Some s \<and>
           run cfg (replicate (send_lock s) (Run_step 0 (Some b))) s = Some s' \<and>
           concat (drop (length (flushed s0)) (flushed s')) @
             slot_bytes (l_bufs (telnet_rb s') ! unat (line_in (telnet_rb s'))) = crlf (outs xs) \<and>
           (outs xs = [] \<or> last (outs xs) = 10 \<longrightarrow>
              concat (drop (length (flushed s0)) (flushed s')) = crlf (outs xs))"
proof -
  from stream_run [OF assms(1,2) fresh_session_inv [OF assms(3,1)] assms(4,5)] assms(6)
  obtain s L R p where r: "run cfg xs s0 = Some s" and inv: "stream_inv cfg (flushed s0) L R p s"
    and all: "concat L @ p = crlf (outs xs)"
    and p: "outs xs = [] \<or> last (outs xs) = 10 \<longrightarrow> p = []"
    by auto
  from inv have sem: "send_lock s = length L - R" by (simp add: stream_inv_def)
  from drain_all [OF assms(1) inv sem, of b] obtain s' where
    d: "run cfg (replicate (send_lock s) (Run_step 0 (Some b))) s = Some s'"
    and inv': "stream_inv cfg (flushed s0) L (length L) p s'"
    by blast
  from inv' have fl: "drop (length (flushed s0)) (flushed s') = L"
    and wr: "slot_bytes (l_bufs (telnet_rb s') ! unat (line_in (telnet_rb s'))) = p"
    by (simp_all add: stream_inv_def ring_holds_def)
  have "concat (drop (length (flushed s0)) (flushed s')) @
          slot_bytes (l_bufs (telnet_rb s') ! unat (line_in (telnet_rb s'))) = crlf (outs xs)"
    unfolding fl wr by (rule all)
  moreover have "outs xs = [] \<or> last (outs xs) = 10 \<longrightarrow>
          concat (drop (length (flushed s0)) (flushed s')) = crlf (outs xs)"
    unfolding fl using all p by auto
  ultimately show ?thesis using r d by blast
qed

theorem flushed_is_input_with_crlf_witness:
  "config_ok example_config \<and> 2 \<le> TELNET_LINES example_config \<and>
   fresh_session example_config example_session \<and>
   list_all is_stream_op
     (map Console_out [104, 105, 10] @ [Run_step 0 (Some 8)] @ map Console_out [111, 107, 10, 62]) \<and>
   no_overwrite example_config
     (map Console_out [104, 105, 10] @ [Run_step 0 (Some 8)] @ map Console_out [111, 107, 10, 62])
     example_session \<and>
   no_capacity_switch example_config
     (map Console_out [104, 105, 10] @ [Run_step 0 (Some 8)] @ map Console_out [111, 107, 10, 62])
     example_session \<and>
   (\<exists>s s'. run example_config
       (map Console_out [104, 105, 10] @ [Run_step 0 (Some 8)] @ map Console_out [111, 107, 10, 62])
       example_session = Some s \<and>
     run example_config (replicate (send_lock s) (Run_step 0 (Some 9))) s = Some s' \<and>
     concat (drop (length (flushed example_session)) (flushed s')) @
       slot_bytes (l_bufs (telnet_rb s') ! unat (line_in (telnet_rb s'))) =
       [104, 105, 13, 10, 111, 107, 13, 10, 62])"
proof -
  let ?xs = "map Console_out [104, 105, 10] @ [Run_step 0 (Some 8)] @ map Console_out [111, 107, 10, 62]"
  have h1: "config_ok example_config" and h2: "2 \<le> TELNET_LINES example_config"
    using example_config_ok by simp_all
  have h3: "fresh_session example_config example_session"
    by (rule example_session_fresh)
  have h4: "list_all is_stream_op ?xs" by code_simp
  have h5: "no_overwrite example_config ?xs example_session" by code_simp
  have h6: "no_capacity_switch example_config ?xs example_session" by code_simp
  have v: "crlf (outs ?xs) = [104, 105, 13, 10, 111, 107, 13, 10, 62]" by code_simp
  from flushed_is_input_with_crlf [OF h1 h2 h3 h4 h5 h6, of 9] h1 h2 h3 h4 h5 h6
  show ?thesis unfolding v by blast
qed

subsection \<open>Complete lines without a sender\<close>

lemma ring_distance:
  fixes R l n :: nat
  assumes "R \<le> l" "l < R + n"
  shows "(l mod n + n - R mod n) mod n = l - R"
proof -
  define y where "y = R mod n"
  define d where "d = l - R"
  from assms have n: "0 < n" and d: "d < n" and l: "l = R + d"
    by (auto simp: d_def)
  have y: "y < n" using n by (simp add: y_def)
  have lm: "l mod n = (y + d) mod n"
    unfolding l y_def by (simp add: mod_add_left_eq)
  show ?thesis
  proof (cases "y + d < n")
    case True
    then have "l mod n = y + d" using lm by simp
    then have "(l mod n + n - y) mod n = (d + n) mod n" by simp
    also have "\<dots> = d" using d by simp
    finally show ?thesis by (simp add: y_def d_def)
  next
    case False
    then have "(y + d) mod n = y + d - n"
      using y d by (simp add: le_mod_geq)
    then have "l mod n + n - y = d" using lm False by simp
    then show ?thesis using d by (simp add: y_def d_def)
  qed
qed

lemma unread_holds:
  assumes h: "ring_holds cfg L R p s"
  shows "unread cfg s = drop R L"
proof -
  define n where "n = TELNET_LINES cfg"
  from h have li: "unat (line_in (telnet_rb s)) = length L mod n"
    and lo: "unat (line_out (telnet_rb s)) = R mod n"
    and RL: "R \<le> length L" "length L < R + n"
    and stored: "\<And>j. R \<le> j \<Longrightarrow> j < length L \<Longrightarrow>
          slot_bytes (l_bufs (telnet_rb s) ! (j mod n)) = L ! j"
    by (simp_all add: ring_holds_def n_def)
  have cnt: "(unat (line_in (telnet_rb s)) + n - unat (line_out (telnet_rb s))) mod n = length L - R"
    unfolding li lo using RL by (rule ring_distance)
  show ?thesis
  proof (rule nth_equalityI)
    show "length (unread cfg s) = length (drop R L)"
      using cnt by (simp add: unread_def n_def)
  next
    fix j
    assume "j < length (unread cfg s)"
    then have j: "j < length L - R"
      using cnt by (simp add: unread_def n_def)
    then have "unread cfg s ! j =
        slot_bytes (l_bufs (telnet_rb s) ! ((unat (line_out (telnet_rb s)) + j) mod n))"
      using cnt by (simp add: unread_def n_def)
    also have "(unat (line_out (telnet_rb s)) + j) mod n = (R + j) mod n"
      unfolding lo by (simp add: mod_add_left_eq)
    also have "slot_bytes (l_bufs (telnet_rb s) ! ((R + j) mod n)) = L ! (R + j)"
      using j by (intro stored) simp_all
    finally show "unread cfg s ! j = drop R L ! j"
      using j by simp
  qed
qed

lemma feed_chars:
  assumes ok: "config_ok cfg"
    and "ring_holds cfg L R p s" and "10 \<notin> set cs"
    and "length p + length cs + 2 \<le> TELNET_LINE_SIZE cfg"
  shows "\<exists>s'. run cfg (map Console_out cs) s = Some s' \<and>
           ring_holds cfg L R (p @ map word_of_int cs) s'"
  using assms(2-)
proof (induction cs arbitrary: p s)
  case Nil
  then show ?case by simp
next
  case (Cons c cs)
  from Cons.prems have c: "c \<noteq> 10" and room: "length p + 2 < TELNET_LINE_SIZE cfg"
    by auto
  from holds_append [OF Cons.prems(1) ok c room] obtain s1 where
    e: "telnet_console_out cfg c s = Some (c, s1)"
    and h1: "ring_holds cfg L R (p @ [word_of_int c]) s1"
    by blast
  from e have e': "exec cfg (Console_out c) s = Some s1" by simp
  from Cons.prems have "10 \<notin> set cs"
    "length (p @ [word_of_int c]) + length cs + 2 \<le> TELNET_LINE_SIZE cfg"
    by simp_all
  from Cons.IH [OF h1 this] show ?case
    unfolding list.map run_step [OF e'] by simp
qed

lemma feed_line:
  assumes ok: "config_ok cfg"
    and h: "ring_holds cfg L R [] s" and l: "10 \<notin> set l" "length l + 2 \<le> TELNET_LINE_SIZE cfg"
  shows "\<exists>s'. run cfg (map Console_out (l @ [10])) s = Some s' \<and>
           ring_holds cfg (L @ [terminated l])
             (if length L + 1 = R + TELNET_LINES cfg then R + 1 else R) [] s'"
proof -
  from feed_chars [OF ok h l(1)] l(2) obtain s1 where
    r1: "run cfg (map Console_out l) s = Some s1"
    and h1: "ring_holds cfg L R (map word_of_int l) s1"
    by auto
  from holds_switch [OF h1 ok, of 10] obtain s' where
    e: "telnet_console_out cfg 10 s1 = Some (10, s')"
    and h': "ring_holds cfg (L @ [map word_of_int l @ [13, 10]])
               (if length L + 1 = R + TELNET_LINES cfg then R + 1 else R) [] s'"
    by auto
  from e have "run cfg [Console_out 10] s1 = Some s'" by simp
  with r1 have "run cfg (map Console_out (l @ [10])) s = Some s'"
    by (simp add: run_append)
  with h' show ?thesis by (auto simp: terminated_def)
qed

lemma feed_lines_Cons:
  "feed_lines (l # ls) = map Console_out (l @ [10]) @ feed_lines ls"
  by (simp add: feed_lines_def)

lemma feed_lines_kept:
  assumes ok: "config_ok cfg"
    and "ring_holds cfg L (length L + 1 - TELNET_LINES cfg) [] s"
    and "list_all (\<lambda>l. 10 \<notin> set l \<and> length l + 2 \<le> TELNET_LINE_SIZE cfg) ls"
  shows "\<exists>s'. run cfg (feed_lines ls) s = Some s' \<and>
           ring_holds cfg (L @ map terminated ls)
             (length L + length ls + 1 - TELNET_LINES cfg) [] s'"
  using assms(2-)
proof (induction ls arbitrary: L s)
  case Nil
  then show ?case by (simp add: feed_lines_def)
next
  case (Cons l ls)
  define n where "n = TELNET_LINES cfg"
  from Cons.prems(2) have l: "10 \<notin> set l" "length l + 2 \<le> TELNET_LINE_SIZE cfg"
    and ls: "list_all (\<lambda>l. 10 \<notin> set l \<and> length l + 2 \<le> TELNET_LINE_SIZE cfg) ls"
    by simp_all
  from ok have n: "0 < n" by (simp add: config_ok_def n_def)
  have R: "(if length L + 1 = length L + 1 - n + n then length L + 1 - n + 1
            else length L + 1 - n) = length (L @ [terminated l]) + 1 - n"
    using n by auto
  from feed_line [OF ok Cons.prems(1) l] obtain s1 where
    r1: "run cfg (map Console_out (l @ [10])) s = Some s1"
    and h1: "ring_holds cfg (L @ [terminated l]) (length (L @ [terminated l]) + 1 - n) [] s1"
    unfolding n_def [symmetric] R by blast
  from Cons.IH [OF h1 [unfolded n_def] ls] obtain s' where
    r: "run cfg (feed_lines ls) s1 = Some s'"
    and h': "ring_holds cfg ((L @ [terminated l]) @ map terminated ls)
               (length (L @ [terminated l]) + length ls + 1 - TELNET_LINES cfg) [] s'"
    by blast
  have "run cfg (map Console_out (l @ [10]) @ feed_lines ls) s = Some s'"
    unfolding run_append r1 using r by simp
  then have "run cfg (feed_lines (l # ls)) s = Some s'"
    by (simp only: feed_lines_Cons)
  with h' show ?case by auto
qed

text \<open>
  Claim C1, as stated, fails: the write slot is one of the slots, so a ring of three slots
  keeps two complete lines. After the four lines \<open>a\<close>, \<open>b\<close>, \<open>c\<close>, \<open>d\<close> the lines
  \<open>a\<close> and \<open>b\<close> are both gone and \<open>line_out\<close> is at \<open>c\<close>, not at \<open>b\<close>.
\<close>

theorem overwrite_discards_beyond_oldest:
  "run example_config (feed_lines [[97], [98], [99], [100]]) example_session \<noteq> None \<and>
   unat (line_out (telnet_rb (the (run example_config (feed_lines [[97], [98], [99], [100]])
      example_session)))) = 2 \<and>
   slot_bytes (l_bufs (telnet_rb (the (run example_config (feed_lines [[97], [98], [99], [100]])
      example_session))) ! 2) = [99, 13, 10] \<and>
   unread example_config (the (run example_config (feed_lines [[97], [98], [99], [100]])
      example_session)) = [[99, 13, 10], [100, 13, 10]] \<and>
   terminated [98] = [98, 13, 10]"
  by code_simp

text \<open>
  Claim C1, amended. From a fresh ring of \<open>N \<ge> 2\<close> slots and with no sender in between,
  \<open>N + 1\<close> complete lines, each short enough for a slot, leave the \<open>N - 1\<close> newest
  unread: the two oldest are discarded, \<open>line_out\<close> is at the third-oldest line, and the
  write slot, at index 1, is empty.
\<close>

theorem overwrite_keeps_newest:
  assumes "config_ok cfg" and "2 \<le> TELNET_LINES cfg" and "fresh_ring cfg s0"
    and "length ls = TELNET_LINES cfg + 1"
    and "list_all (\<lambda>l. 10 \<notin> set l \<and> length l + 2 \<le> TELNET_LINE_SIZE cfg) ls"
  shows "\<exists>s. run cfg (feed_lines ls) s0 = Some s \<and>
           unread cfg s = map terminated (drop 2 ls) \<and>
           unat (line_out (telnet_rb s)) = 2 mod TELNET_LINES cfg \<and>
           slot_bytes (l_bufs (telnet_rb s) ! unat (line_out (telnet_rb s))) = terminated (ls ! 2) \<and>
           unat (line_in (telnet_rb s)) = 1 \<and>
           len (l_bufs (telnet_rb s) ! unat (line_in (telnet_rb s))) = 0"
proof -
  define n where "n = TELNET_LINES cfg"
  have h0: "ring_holds cfg [] (length ([] :: 8 word list list) + 1 - TELNET_LINES cfg) [] s0"
    using fresh_ring_holds [OF assms(3,1)] assms(2) by simp
  from feed_lines_kept [OF assms(1) h0 assms(5)] obtain s where
    r: "run cfg (feed_lines ls) s0 = Some s"
    and h: "ring_holds cfg (map terminated ls) 2 [] s"
    using assms(4) by auto
  from unread_holds [OF h] have u: "unread cfg s = map terminated (drop 2 ls)"
    by (simp add: drop_map)
  from assms(2) have m1: "Suc n mod n = 1"
    by (simp add: mod_Suc n_def)
  from assms(2,4) have len: "length (map terminated ls) = Suc n" and two: "2 < Suc n"
    by (simp_all add: n_def)
  from h have lo: "unat (line_out (telnet_rb s)) = 2 mod n"
    and li: "unat (line_in (telnet_rb s)) = length (map terminated ls) mod n"
    and stored: "\<forall>j \<in> {2 ..< length (map terminated ls)}.
          slot_bytes (l_bufs (telnet_rb s) ! (j mod n)) = map terminated ls ! j"
    and wr: "unat (len (l_bufs (telnet_rb s) ! (length (map terminated ls) mod n))) = 0"
    by (simp_all add: ring_holds_def n_def)
  from stored len two have st: "slot_bytes (l_bufs (telnet_rb s) ! (2 mod n)) = map terminated ls ! 2"
    by simp
  from li len m1 have li: "unat (line_in (telnet_rb s)) = 1" by simp
  from len m1 have "length (map terminated ls) mod n = 1" by simp
  with wr li have "len (l_bufs (telnet_rb s) ! unat (line_in (telnet_rb s))) = 0"
    by (simp add: unat_eq_0)
  moreover from st lo assms(2,4)
  have "slot_bytes (l_bufs (telnet_rb s) ! unat (line_out (telnet_rb s))) = terminated (ls ! 2)"
    by (simp add: n_def)
  ultimately show ?thesis using r u lo li unfolding n_def by blast
qed

theorem overwrite_keeps_newest_witness:
  "config_ok example_config \<and> 2 \<le> TELNET_LINES example_config \<and>
   fresh_ring example_config example_session \<and>
   length [[97], [98], [99], [100 :: int]] = TELNET_LINES example_config + 1 \<and>
   list_all (\<lambda>l. 10 \<notin> set l \<and> length l + 2 \<le> TELNET_LINE_SIZE example_config)
     [[97], [98], [99], [100 :: int]] \<and>
   (\<exists>s. run example_config (feed_lines [[97], [98], [99], [100]]) example_session = Some s \<and>
      unread example_config s = [[99, 13, 10], [100, 13, 10]] \<and>
      unat (line_out (telnet_rb s)) = 2 \<and>
      slot_bytes (l_bufs (telnet_rb s) ! unat (line_out (telnet_rb s))) = [99, 13, 10])"
proof -
  have h1: "config_ok example_config" and h2: "2 \<le> TELNET_LINES example_config"
    using example_config_ok by simp_all
  have h3: "fresh_ring example_config example_session"
    using example_session_fresh by (simp add: fresh_session_def)
  have h4: "length [[97], [98], [99], [100 :: int]] = TELNET_LINES example_config + 1"
    by (simp add: example_config_def)
  have h5: "list_all (\<lambda>l. 10 \<notin> set l \<and> length l + 2 \<le> TELNET_LINE_SIZE example_config)
     [[97], [98], [99], [100 :: int]]"
    by (simp add: example_config_def)
  have v: "map terminated (drop 2 [[97], [98], [99], [100]]) = [[99, 13, 10], [100, 13, 10]]"
    "terminated ([[97], [98], [99], [100]] ! 2) = [99, 13, 10]"
    "2 mod TELNET_LINES example_config = 2"
    by (simp_all add: terminated_def example_config_def)
  from overwrite_keeps_newest [OF h1 h2 h3 h4 h5] h1 h2 h3 h4 h5
  show ?thesis unfolding v by blast
qed

text \<open>
  Claim C2 does not hold of the code. With slots of 8 bytes the input \<open>abcdefghij\<close> and a
  line feed is switched at the capacity of the first slot, but the carriage return of the
  forced terminator is stored over the byte stored last: the fragments are \<open>abcdef\<close> and
  \<open>hij\<close> with their terminators, and \<open>g\<close> (103) is in neither.
\<close>

theorem capacity_switch_loses_byte:
  "run example_config example_input example_session \<noteq> None \<and>
   unread example_config (the (run example_config example_input example_session)) =
     [[97, 98, 99, 100, 101, 102, 13, 10], [104, 105, 106, 13, 10]] \<and>
   map_option flushed (run example_config
      (example_input @ [Run_step 0 (Some 8), Run_step 0 (Some 9)]) example_session) =
     Some [[97, 98, 99, 100, 101, 102, 13, 10], [104, 105, 106, 13, 10]] \<and>
   outs example_input = [97, 98, 99, 100, 101, 102, 103, 104, 105, 106, 10]"
  by code_simp

subsection \<open>The driver under its events\<close>

lemma same_session_refl [simp]: "same_session s s"
  by (simp add: same_session_def)

lemma same_session_put_line [simp]: "same_session s (put_line s i lb)"
  by (simp add: same_session_def put_line_def)

lemma same_session_trans: "same_session s t \<Longrightarrow> same_session t u \<Longrightarrow> same_session s u"
  by (simp add: same_session_def)

lemma switch_same_session:
  assumes "telnet_rb_switch cfg s = Some s'"
  shows "same_session s s'"
  using assms
  by (auto simp: telnet_rb_switch_def Let_def same_session_def split: Option.bind_splits)

lemma switch_safe:
  assumes wt: "well_typed cfg s" and li0: "unat (line_in (telnet_rb s)) < TELNET_LINES cfg"
    and lo0: "unat (line_out (telnet_rb s)) < TELNET_LINES cfg"
    and lens: "list_all (\<lambda>lb. unat (len lb) \<le> TELNET_LINE_SIZE cfg) (l_bufs (telnet_rb s))"
    and ok: "config_ok cfg"
  shows "\<exists>s'. telnet_rb_switch cfg s = Some s' \<and> ring_safe cfg s' \<and> same_session s s' \<and>
           (idle s \<longrightarrow> idle s')"
proof -
  define n where "n = TELNET_LINES cfg"
  define i' where "i' = (unat (line_in (telnet_rb s)) + 1) mod n"
  from ok have n: "0 < n" "n \<le> 65536" and cap: "2 \<le> TELNET_LINE_SIZE cfg"
    by (simp_all add: config_ok_def n_def)
  from li0 lo0 have li: "unat (line_in (telnet_rb s)) < n"
    and lo: "unat (line_out (telnet_rb s)) < n"
    by (simp_all add: n_def)
  from wt have len: "length (l_bufs (telnet_rb s)) = TELNET_LINES cfg"
    by (simp add: well_typed_def)
  from switch_result [OF len _ li [unfolded n_def] lo [unfolded n_def]] n(2)
  obtain s' where sw: "telnet_rb_switch cfg s = Some s'"
    and in': "unat (line_in (telnet_rb s')) = i'"
    and out': "unat (line_out (telnet_rb s')) =
        (if i' = unat (line_out (telnet_rb s)) then (unat (line_out (telnet_rb s)) + 1) mod n
         else unat (line_out (telnet_rb s)))"
    and bufs': "l_bufs (telnet_rb s') = (l_bufs (telnet_rb s))[i' := (l_bufs (telnet_rb s) ! i')\<lparr>len := 0\<rparr>]"
    unfolding n_def i'_def by (auto simp: n_def)
  have i'n: "i' < n" using n by (simp add: i'_def)
  have o'n: "unat (line_out (telnet_rb s')) < n"
    using out' lo n by simp
  have b: "length (buf ((l_bufs (telnet_rb s) ! i')\<lparr>len := 0\<rparr>)) = TELNET_LINE_SIZE cfg"
    using well_typed_nth [OF wt, of i'] i'n by (simp add: n_def)
  have wt': "well_typed cfg s'"
    using wt b unfolding well_typed_def bufs' by (simp add: list_all_update)
  have lens': "list_all (\<lambda>lb. unat (len lb) \<le> TELNET_LINE_SIZE cfg) (l_bufs (telnet_rb s'))"
    unfolding bufs' using lens by (intro list_all_update) simp_all
  have room: "unat (len (l_bufs (telnet_rb s') ! unat (line_in (telnet_rb s')))) + 1 < TELNET_LINE_SIZE cfg"
    unfolding in' bufs' using i'n len cap by (simp add: n_def)
  have "idle s'" if "idle s"
    using that unfolding idle_def bufs' by (intro list_all_update) simp_all
  with sw wt' in' i'n o'n lens' room switch_same_session [OF sw] show ?thesis
    by (auto simp: ring_safe_def n_def)
qed

lemma get_line_out_safe:
  assumes rs: "ring_safe cfg s"
  shows "\<exists>r s'. telnet_rb_get_line_out cfg s = Some (r, s') \<and> ring_safe cfg s' \<and>
           same_session s s' \<and> l_bufs (telnet_rb s') = l_bufs (telnet_rb s) \<and>
           line_in (telnet_rb s') = line_in (telnet_rb s) \<and>
           sent s' = sent s \<and>
           (\<forall>i. r = Some i \<longrightarrow> i < TELNET_LINES cfg \<and> len (l_bufs (telnet_rb s) ! i) \<noteq> 0)"
proof -
  define w where "w = (if unat (line_out (telnet_rb s) + 1) = TELNET_LINES cfg then 0
                       else line_out (telnet_rb s) + 1)"
  from rs have len: "length (l_bufs (telnet_rb s)) = TELNET_LINES cfg"
    and lo: "unat (line_out (telnet_rb s)) < TELNET_LINES cfg"
    by (simp_all add: ring_safe_def well_typed_def)
  then have n: "0 < TELNET_LINES cfg" by simp
  have w: "unat w < TELNET_LINES cfg"
    unfolding w_def using wrap_lt [OF n lo] .
  have g: "telnet_rb_get_line_out cfg s =
      Some (if len (l_bufs (telnet_rb s) ! unat (line_out (telnet_rb s))) = 0 then None
            else Some (unat (line_out (telnet_rb s))),
            s\<lparr>telnet_rb := (telnet_rb s)\<lparr>line_out := w\<rparr>\<rparr>)"
    using len lo by (simp add: telnet_rb_get_line_out_def Let_def array_get_def w_def)
  have "ring_safe cfg (s\<lparr>telnet_rb := (telnet_rb s)\<lparr>line_out := w\<rparr>\<rparr>)"
    using rs w by (simp add: ring_safe_def well_typed_def)
  with g lo show ?thesis
    by (auto simp: same_session_def)
qed

lemma console_out_same_session:
  assumes "telnet_console_out cfg c s = Some (r, s')"
  shows "same_session s s'"
  using assms
proof (cases rule: console_out_cases)
  case (stay lb)
  then show ?thesis by simp
next
  case (switch lb)
  from switch_same_session [OF this] show ?thesis
    by (simp add: same_session_def put_line_def)
qed

lemma console_out_safe:
  assumes rs: "ring_safe cfg s" and ok: "config_ok cfg"
  shows "\<exists>s'. telnet_console_out cfg c s = Some (c, s') \<and> ring_safe cfg s' \<and> same_session s s'"
proof -
  define i where "i = unat (line_in (telnet_rb s))"
  define lb where "lb = l_bufs (telnet_rb s) ! i"
  from ok have cap: "2 \<le> TELNET_LINE_SIZE cfg" "TELNET_LINE_SIZE cfg \<le> 65535"
    by (simp_all add: config_ok_def)
  from rs have wt: "well_typed cfg s" and li: "i < TELNET_LINES cfg"
    and lo: "unat (line_out (telnet_rb s)) < TELNET_LINES cfg"
    and lens: "list_all (\<lambda>lb. unat (len lb) \<le> TELNET_LINE_SIZE cfg) (l_bufs (telnet_rb s))"
    and room: "unat (len lb) + 1 < TELNET_LINE_SIZE cfg"
    by (simp_all add: ring_safe_def i_def lb_def)
  from wt have len: "length (l_bufs (telnet_rb s)) = TELNET_LINES cfg"
    by (simp add: well_typed_def)
  have blen: "length (buf lb) = TELNET_LINE_SIZE cfg"
    using well_typed_nth [OF wt li] by (simp add: lb_def)
  have il: "unat (line_in (telnet_rb s)) < length (l_bufs (telnet_rb s))"
    using li len by (simp add: i_def)
  have lbi: "lb = l_bufs (telnet_rb s) ! unat (line_in (telnet_rb s))"
    by (simp add: lb_def i_def)
  have u1: "unat (len lb + 1) = unat (len lb) + 1"
    using room cap by (intro unat_succ) simp
  show ?thesis
  proof (cases "c = 10 \<or> unat (len lb) + 2 = TELNET_LINE_SIZE cfg")
    case True
    define lb' where "lb' = lb\<lparr>buf := (buf lb)[unat (len lb) := 13, Suc (unat (len lb)) := 10],
                                len := len lb + 2\<rparr>"
    define s1 where "s1 = put_line s i lb'"
    have step: "telnet_console_out cfg c s = map_option (Pair c) (telnet_rb_switch cfg s1)"
      unfolding s1_def lb'_def i_def by (rule console_out_switch [OF il lbi blen cap(2) room True])
    have u2: "unat (len lb + 2) = unat (len lb) + 2"
    proof -
      have "unat (len lb + 1 + 1) = unat (len lb + 1) + 1"
        using room cap u1 by (intro unat_succ) simp
      with u1 show ?thesis by (simp add: add.commute)
    qed
    have wt1: "well_typed cfg s1"
      unfolding s1_def using wt blen by (intro well_typed_put_line) (simp_all add: lb'_def)
    have lens1: "list_all (\<lambda>lb. unat (len lb) \<le> TELNET_LINE_SIZE cfg) (l_bufs (telnet_rb s1))"
      using lens room u2 by (simp add: s1_def put_line_def list_all_update lb'_def)
    have li1: "unat (line_in (telnet_rb s1)) < TELNET_LINES cfg"
      and lo1: "unat (line_out (telnet_rb s1)) < TELNET_LINES cfg"
      using li lo by (simp_all add: s1_def put_line_def i_def)
    from switch_safe [OF wt1 li1 lo1 lens1 ok] obtain s' where
      "telnet_rb_switch cfg s1 = Some s'" "ring_safe cfg s'" "same_session s1 s'"
      by blast
    with step show ?thesis
      by (auto simp: s1_def same_session_def put_line_def)
  next
    case False
    with room have c: "c \<noteq> 10" and r2: "unat (len lb) + 2 < TELNET_LINE_SIZE cfg"
      by auto
    define lb' where "lb' = lb\<lparr>buf := (buf lb)[unat (len lb) := word_of_int c], len := len lb + 1\<rparr>"
    have step: "telnet_console_out cfg c s = Some (c, put_line s i lb')"
      unfolding lb'_def i_def by (rule console_out_stay [OF il lbi blen cap(2) r2 c])
    have wt1: "well_typed cfg (put_line s i lb')"
      using wt blen by (intro well_typed_put_line) (simp_all add: lb'_def)
    have "ring_safe cfg (put_line s i lb')"
      using wt1 li lo lens r2 u1 len
      by (simp add: ring_safe_def put_line_def list_all_update lb'_def i_def [symmetric])
    with step show ?thesis by auto
  qed
qed

lemma send_prematurely_safe:
  assumes rs: "ring_safe cfg s" and ok: "config_ok cfg"
  shows "\<exists>s'. telnet_send_prematurely cfg s = Some s' \<and> ring_safe cfg s' \<and> same_session s s' \<and>
           (idle s \<longrightarrow> idle s')"
proof -
  from rs have wt: "well_typed cfg s" and li: "unat (line_in (telnet_rb s)) < TELNET_LINES cfg"
    and lo: "unat (line_out (telnet_rb s)) < TELNET_LINES cfg"
    and lens: "list_all (\<lambda>lb. unat (len lb) \<le> TELNET_LINE_SIZE cfg) (l_bufs (telnet_rb s))"
    by (simp_all add: ring_safe_def)
  from wt li have g: "array_get (l_bufs (telnet_rb s)) (telnet_rb_get_line_in s) =
      Some (l_bufs (telnet_rb s) ! unat (line_in (telnet_rb s)))"
    by (simp add: array_get_def telnet_rb_get_line_in_def well_typed_def)
  from switch_safe [OF wt li lo lens ok] rs show ?thesis
    by (auto simp: telnet_send_prematurely_def g)
qed

lemma rb_init_safe:
  assumes wt: "well_typed cfg s" and ok: "config_ok cfg"
  shows "ring_safe cfg (telnet_rb_init cfg s) \<and> idle (telnet_rb_init cfg s) \<and>
         same_session s (telnet_rb_init cfg s)"
proof -
  let ?bs = "l_bufs (telnet_rb s)"
  from ok have n: "0 < TELNET_LINES cfg" and cap: "2 \<le> TELNET_LINE_SIZE cfg"
    by (simp_all add: config_ok_def)
  from wt have len: "length ?bs = TELNET_LINES cfg"
    and bufs: "\<And>j. j < length ?bs \<Longrightarrow> length (buf (?bs ! j)) = TELNET_LINE_SIZE cfg"
    by (simp_all add: well_typed_def list_all_length)
  have nth: "rb_init_loop (TELNET_LINES cfg) 0 ?bs ! j = (?bs ! j)\<lparr>len := 0\<rparr>"
    if "j < length ?bs" for j
    using that len by (simp add: rb_init_loop_nth)
  show ?thesis
    using len bufs nth n cap
    by (simp add: ring_safe_def idle_def well_typed_def telnet_rb_init_def list_all_length
        same_session_def)
qed

lemma end_client_connection_safe:
  assumes wt: "well_typed cfg s" and o: "orig_printk_hook s \<noteq> Some Telnet_console_out"
    and ok: "config_ok cfg"
  shows "safe cfg (telnet_end_client_connection cfg s)"
proof -
  define t where "t = s\<lparr>printk_hook := orig_printk_hook s, orig_printk_hook := None,
      send_timer := False, ctx_puts := ctx_puts s @ [client_cnx s], client_cnx := None,
      unrefs := (case out_buf s of None \<Rightarrow> unrefs s | Some b \<Rightarrow> unrefs s @ [b])\<rparr>"
  have e: "telnet_end_client_connection cfg s = telnet_rb_init cfg t"
    by (simp add: telnet_end_client_connection_def Let_def t_def split: option.splits)
  from wt have "well_typed cfg t"
    by (simp add: well_typed_def t_def)
  from rb_init_safe [OF this ok] have r: "ring_safe cfg (telnet_rb_init cfg t)"
    and i: "idle (telnet_rb_init cfg t)"
    and c: "client_cnx (telnet_rb_init cfg t) = client_cnx t"
    and p: "printk_hook (telnet_rb_init cfg t) = printk_hook t"
    and g: "orig_printk_hook (telnet_rb_init cfg t) = orig_printk_hook t"
    by (simp_all add: same_session_def)
  have t: "client_cnx t = None" "printk_hook t = orig_printk_hook s" "orig_printk_hook t = None"
    by (simp_all add: t_def)
  show ?thesis
    unfolding e safe_def c p g t using r i o by simp
qed

lemma send_safe:
  assumes sf: "safe cfg s" and ok: "config_ok cfg"
  shows "\<exists>r s'. telnet_send cfg rc tx s = Some (r, s') \<and>
           (if r then safe cfg s'
            else well_typed cfg s' \<and> orig_printk_hook s' \<noteq> Some Telnet_console_out)"
proof -
  from sf have rs: "ring_safe cfg s" and og: "orig_printk_hook s \<noteq> Some Telnet_console_out"
    and cl: "client_cnx s = None \<Longrightarrow> idle s \<and> printk_hook s \<noteq> Some Telnet_console_out"
    and ob: "out_buf s = None \<Longrightarrow> client_cnx s = None"
    by (simp_all add: safe_def)
  from ok have cap: "2 \<le> TELNET_LINE_SIZE cfg" by (simp add: config_ok_def)
  from get_line_out_safe [OF rs] obtain r1 s1 where
    g: "telnet_rb_get_line_out cfg s = Some (r1, s1)" and rs1: "ring_safe cfg s1"
    and ss: "same_session s s1" and bufs: "l_bufs (telnet_rb s1) = l_bufs (telnet_rb s)"
    and li1: "line_in (telnet_rb s1) = line_in (telnet_rb s)"
    and r1: "\<And>i. r1 = Some i \<Longrightarrow> i < TELNET_LINES cfg \<and> len (l_bufs (telnet_rb s) ! i) \<noteq> 0"
    by blast
  show ?thesis
  proof (cases r1)
    case None
    then have e: "telnet_send cfg rc tx s = Some (True, s1)"
      using g by (simp add: telnet_send_def)
    have "safe cfg s1"
      using rs1 ss og cl ob bufs by (auto simp: safe_def same_session_def idle_def)
    with e show ?thesis by auto
  next
    case (Some i)
    define lb where "lb = l_bufs (telnet_rb s) ! i"
    from r1 [OF Some] have i: "i < TELNET_LINES cfg" and nz: "len lb \<noteq> 0"
      by (simp_all add: lb_def)
    from rs have wt: "well_typed cfg s"
      and lens: "list_all (\<lambda>lb. unat (len lb) \<le> TELNET_LINE_SIZE cfg) (l_bufs (telnet_rb s))"
      by (simp_all add: ring_safe_def)
    from wt have len: "length (l_bufs (telnet_rb s)) = TELNET_LINES cfg"
      by (simp add: well_typed_def)
    have blen: "length (buf lb) = TELNET_LINE_SIZE cfg"
      using well_typed_nth [OF wt i] by (simp add: lb_def)
    have fits: "unat (len lb) \<le> length (buf lb)"
      using lens i len blen by (simp add: list_all_length lb_def)
    have "\<not> idle s"
      using nz i len by (auto simp: idle_def list_all_length lb_def)
    with cl ob obtain b0 where b0: "out_buf s = Some b0" and cn: "client_cnx s \<noteq> None"
      by (cases "out_buf s") auto
    define b1 where "b1 = b0\<lparr>nb_data := nb_data b0 @ take (unat (len lb)) (buf lb)\<rparr>"
    define s2 where "s2 = put_line (s1\<lparr>out_buf := Some b1\<rparr>) i (lb\<lparr>len := 0\<rparr>)\<lparr>sent := sent s1 @ [b1]\<rparr>"
    have s1f: "out_buf s1 = Some b0" using ss b0 by (simp add: same_session_def)
    have e: "telnet_send cfg rc tx s =
        (if rc \<noteq> 0 then Some (False, s2)
         else if tx = None then Some (False, s2\<lparr>out_buf := None\<rparr>)
         else Some (True, s2\<lparr>out_buf := map_option (\<lambda>n. \<lparr>nb_id = n, nb_data = []\<rparr>) tx\<rparr>))"
      using i len fits Some
      by (simp add: telnet_send_def g array_get_def bufs lb_def [symmetric] s1f Let_def
          telnet_setup_out_buf_def s2_def b1_def put_line_def ENOBUFS_def)
    have wt2: "well_typed cfg s2"
      using rs1 blen by (simp add: s2_def put_line_def ring_safe_def well_typed_def list_all_update)
    have rs2: "ring_safe cfg s2"
    proof -
      from rs1 have a: "unat (line_in (telnet_rb s1)) < TELNET_LINES cfg"
        "unat (line_out (telnet_rb s1)) < TELNET_LINES cfg"
        "list_all (\<lambda>lb. unat (len lb) \<le> TELNET_LINE_SIZE cfg) (l_bufs (telnet_rb s1))"
        "unat (len (l_bufs (telnet_rb s1) ! unat (line_in (telnet_rb s1)))) + 1 < TELNET_LINE_SIZE cfg"
        by (simp_all add: ring_safe_def)
      have "unat (len ((l_bufs (telnet_rb s1))[i := lb\<lparr>len := 0\<rparr>] ! unat (line_in (telnet_rb s1)))) + 1
              < TELNET_LINE_SIZE cfg"
        using a(4) cap i len bufs by (cases "i = unat (line_in (telnet_rb s1))") simp_all
      with wt2 a show ?thesis
        by (simp add: ring_safe_def s2_def put_line_def list_all_update)
    qed
    have f2: "client_cnx s2 = client_cnx s" "printk_hook s2 = printk_hook s"
      "orig_printk_hook s2 = orig_printk_hook s"
      using ss by (simp_all add: s2_def put_line_def same_session_def)
    have "safe cfg (s2\<lparr>out_buf := Some nb\<rparr>)" for nb
      using rs2 f2 og cn by (auto simp: safe_def ring_safe_def well_typed_def)
    moreover have "well_typed cfg (s2\<lparr>out_buf := None\<rparr>)"
      using wt2 by (simp add: well_typed_def)
    ultimately show ?thesis
      unfolding e using wt2 f2 og by (cases tx) auto
  qed
qed

lemma run_step_safe:
  assumes sf: "safe cfg s" and ok: "config_ok cfg"
  shows "\<exists>s'. telnet_run_step cfg rc tx s = Some s' \<and> safe cfg s'"
proof (cases "send_lock s = 0")
  case True
  with sf show ?thesis by (simp add: telnet_run_step_def)
next
  case False
  define s0 where "s0 = s\<lparr>send_lock := send_lock s - 1\<rparr>"
  have "safe cfg s0"
    using sf by (simp add: safe_def ring_safe_def well_typed_def idle_def s0_def)
  from send_safe [OF this ok, of rc tx] obtain r s1 where
    e: "telnet_send cfg rc tx s0 = Some (r, s1)"
    and c: "if r then safe cfg s1
            else well_typed cfg s1 \<and> orig_printk_hook s1 \<noteq> Some Telnet_console_out"
    by blast
  have "safe cfg (if \<not> r then telnet_end_client_connection cfg s1 else s1)"
    using c end_client_connection_safe [of cfg s1] ok by (cases r) simp_all
  moreover from e have "telnet_send cfg rc tx (s\<lparr>send_lock := send_lock s - 1\<rparr>) = Some (r, s1)"
    by (simp add: s0_def)
  ultimately show ?thesis
    using False by (simp add: telnet_run_step_def)
qed

lemma safe_teardown:
  assumes "safe cfg s" "config_ok cfg"
  shows "safe cfg (telnet_end_client_connection cfg s)"
  using assms by (intro end_client_connection_safe) (simp_all add: safe_def ring_safe_def)

lemma handle_input_safe:
  assumes "safe cfg s"
  shows "safe cfg (telnet_handle_input cfg chunk s)"
proof -
  have "client_cnx (telnet_handle_input cfg chunk s) = client_cnx s"
    "out_buf (telnet_handle_input cfg chunk s) = out_buf s"
    "printk_hook (telnet_handle_input cfg chunk s) = printk_hook s"
    "orig_printk_hook (telnet_handle_input cfg chunk s) = orig_printk_hook s"
    by (simp_all add: telnet_handle_input_def Let_def split: option.splits list.splits)
  with assms show ?thesis
    by (simp add: safe_def ring_safe_def well_typed_def idle_def)
qed

lemma accept_safe:
  assumes sf: "safe cfg s"
  shows "safe cfg (telnet_accept client err recv_rc tx s)"
proof (cases "err \<noteq> 0 \<or> client_cnx s \<noteq> None \<or> recv_rc \<noteq> 0")
  case True
  then have "telnet_accept client err recv_rc tx s = s\<lparr>ctx_puts := ctx_puts s @ [Some client]\<rparr>"
    by (auto simp: telnet_accept_def Let_def)
  with sf show ?thesis
    by (simp add: safe_def ring_safe_def well_typed_def idle_def)
next
  case False
  then have cn: "client_cnx s = None" by simp
  show ?thesis
  proof (cases tx)
    case None
    with False have "telnet_accept client err recv_rc tx s =
        s\<lparr>out_buf := None, ctx_puts := ctx_puts s @ [Some client]\<rparr>"
      by (simp add: telnet_accept_def telnet_setup_out_buf_def Let_def ENOBUFS_def)
    with sf cn show ?thesis
      by (simp add: safe_def ring_safe_def well_typed_def idle_def)
  next
    case (Some n)
    with False have "telnet_accept client err recv_rc tx s =
        s\<lparr>out_buf := Some \<lparr>nb_id = n, nb_data = []\<rparr>, orig_printk_hook := printk_hook s,
          printk_hook := Some Telnet_console_out, client_cnx := Some client, send_timer := True\<rparr>"
      by (simp add: telnet_accept_def telnet_setup_out_buf_def Let_def)
    with sf cn show ?thesis
      by (simp add: safe_def ring_safe_def well_typed_def idle_def)
  qed
qed

lemma fire_safe:
  assumes sf: "safe cfg s" and ok: "config_ok cfg"
  shows "\<exists>s'. fire cfg e s = Some s' \<and> safe cfg s'"
proof (cases e)
  case (Printk c)
  show ?thesis
  proof (cases "printk_hook s = Some Telnet_console_out")
    case True
    from sf have rs: "ring_safe cfg s" by (simp add: safe_def)
    from console_out_safe [OF rs ok, of c] obtain s' where
      "telnet_console_out cfg c s = Some (c, s')" "ring_safe cfg s'" "same_session s s'"
      by blast
    moreover from sf True have "client_cnx s \<noteq> None" by (auto simp: safe_def)
    ultimately show ?thesis
      using sf True Printk by (auto simp: safe_def same_session_def)
  next
    case False
    with sf Printk show ?thesis by simp
  qed
next
  case Timer_expiry
  from sf have rs: "ring_safe cfg s" by (simp add: safe_def)
  from send_prematurely_safe [OF rs ok] obtain s' where
    "telnet_send_prematurely cfg s = Some s'" "ring_safe cfg s'" "same_session s s'"
    "idle s \<longrightarrow> idle s'"
    by blast
  with sf Timer_expiry show ?thesis
    by (auto simp: safe_def same_session_def)
next
  case (Sender_turn rc tx)
  with run_step_safe [OF sf ok] show ?thesis by simp
next
  case (Sent_callback st)
  with sf ok show ?thesis by (simp add: telnet_sent_cb_def safe_teardown)
next
  case (Recv_callback b st)
  with sf ok show ?thesis
    by (simp add: telnet_recv_def safe_teardown handle_input_safe split: option.splits)
next
  case (Accept_callback client err recv_rc tx)
  with sf show ?thesis by (simp add: accept_safe)
next
  case (Register_input avail lines)
  with sf show ?thesis
    by (simp add: telnet_register_input_def safe_def ring_safe_def well_typed_def idle_def)
qed

lemma run_events_safe:
  assumes "safe cfg s" and ok: "config_ok cfg"
  shows "\<exists>s'. run_events cfg es s = Some s' \<and> safe cfg s'"
  using assms(1)
proof (induction es arbitrary: s)
  case Nil
  then show ?case by simp
next
  case (Cons e es)
  from fire_safe [OF Cons.prems ok, of e] obtain s1 where
    f: "fire cfg e s = Some s1" and s1: "safe cfg s1"
    by blast
  from Cons.IH [OF s1] f show ?case by simp
qed

lemma boot_safe:
  assumes "config_ok cfg" and "h \<noteq> Some Telnet_console_out"
  shows "safe cfg (telnet_boot cfg h)"
  using assms
  by (simp add: safe_def ring_safe_def well_typed_def idle_def telnet_boot_def config_ok_def
      list_all_length)

lemma ring_safe_in_range:
  assumes "ring_safe cfg s"
  shows "in_range cfg s"
proof -
  from assms have len: "length (l_bufs (telnet_rb s)) = TELNET_LINES cfg"
    and li: "unat (line_in (telnet_rb s)) < TELNET_LINES cfg"
    and lo: "unat (line_out (telnet_rb s)) < TELNET_LINES cfg"
    by (simp_all add: ring_safe_def well_typed_def)
  have "unat (line_in (telnet_rb s)) \<in> set [0 ..< length (l_bufs (telnet_rb s))]"
    using li len by simp
  then have "readable_count s < length [0 ..< length (l_bufs (telnet_rb s))]"
    unfolding readable_count_def by (rule length_filter_less) simp
  with len li lo show ?thesis by (simp add: in_range_def)
qed

text \<open>
  Claim C9. Whatever events reach the driver after start-up, every call is defined (no
  access leaves an array) and in the state reached \<open>line_in\<close> and \<open>line_out\<close> are below the
  number of slots and fewer slots than that are readable, hence at most that many. From
  that state each operation of the ring, the append, the switch, the take-readable, the
  reset and the timer-forced switch, is defined as well and leaves the indices and the
  count in range.
\<close>

theorem ring_indices_in_range:
  assumes "config_ok cfg" and "h \<noteq> Some Telnet_console_out"
  shows "\<exists>s. run_events cfg es (telnet_boot cfg h) = Some s \<and>
           in_range cfg s \<and>
           (\<exists>s'. telnet_console_out cfg c s = Some (c, s') \<and> in_range cfg s') \<and>
           (\<exists>s'. telnet_rb_switch cfg s = Some s' \<and> in_range cfg s') \<and>
           (\<exists>r s'. telnet_rb_get_line_out cfg s = Some (r, s') \<and> in_range cfg s') \<and>
           in_range cfg (telnet_rb_init cfg s) \<and>
           (\<exists>s'. telnet_send_prematurely cfg s = Some s' \<and> in_range cfg s')"
proof -
  from run_events_safe [OF boot_safe [OF assms] assms(1), of es] obtain s where
    r: "run_events cfg es (telnet_boot cfg h) = Some s" and sf: "safe cfg s"
    by blast
  from sf have rs: "ring_safe cfg s" by (simp add: safe_def)
  then have wt: "well_typed cfg s" and li: "unat (line_in (telnet_rb s)) < TELNET_LINES cfg"
    and lo: "unat (line_out (telnet_rb s)) < TELNET_LINES cfg"
    and lens: "list_all (\<lambda>lb. unat (len lb) \<le> TELNET_LINE_SIZE cfg) (l_bufs (telnet_rb s))"
    by (simp_all add: ring_safe_def)
  note here = ring_safe_in_range [OF rs]
  from console_out_safe [OF rs assms(1), of c] ring_safe_in_range
  have a: "\<exists>s'. telnet_console_out cfg c s = Some (c, s') \<and> in_range cfg s'" by blast
  from switch_safe [OF wt li lo lens assms(1)] ring_safe_in_range
  have b: "\<exists>s'. telnet_rb_switch cfg s = Some s' \<and> in_range cfg s'" by blast
  from get_line_out_safe [OF rs] ring_safe_in_range
  have c: "\<exists>r s'. telnet_rb_get_line_out cfg s = Some (r, s') \<and> in_range cfg s'" by blast
  from rb_init_safe [OF wt assms(1)] ring_safe_in_range
  have d: "in_range cfg (telnet_rb_init cfg s)" by blast
  from send_prematurely_safe [OF rs assms(1)] ring_safe_in_range
  have e: "\<exists>s'. telnet_send_prematurely cfg s = Some s' \<and> in_range cfg s'" by blast
  from r here a b c d e show ?thesis by blast
qed

theorem ring_indices_in_range_witness:
  "config_ok example_config \<and> Some (Other_hook 0) \<noteq> Some Telnet_console_out \<and>
   (\<exists>s. run_events example_config example_events (telnet_boot example_config (Some (Other_hook 0))) =
          Some s \<and>
        in_range example_config s \<and>
        (\<exists>s'. telnet_console_out example_config 10 s = Some (10, s') \<and> in_range example_config s') \<and>
        (\<exists>s'. telnet_rb_switch example_config s = Some s' \<and> in_range example_config s') \<and>
        (\<exists>r s'. telnet_rb_get_line_out example_config s = Some (r, s') \<and>
           in_range example_config s') \<and>
        in_range example_config (telnet_rb_init example_config s) \<and>
        (\<exists>s'. telnet_send_prematurely example_config s = Some s' \<and> in_range example_config s')) \<and>
   map_option (line_in \<circ> telnet_rb)
     (run_events example_config example_events (telnet_boot example_config (Some (Other_hook 0)))) =
     Some 1 \<and>
   map_option (line_out \<circ> telnet_rb)
     (run_events example_config example_events (telnet_boot example_config (Some (Other_hook 0)))) =
     Some 0 \<and>
   map_option flushed
     (run_events example_config example_events (telnet_boot example_config (Some (Other_hook 0)))) =
     Some [[97, 13, 10], [99, 13, 10]]"
proof -
  have h1: "config_ok example_config"
    by (simp add: config_ok_def example_config_def)
  have h2: "Some (Other_hook 0) \<noteq> Some Telnet_console_out" by simp
  have v: "map_option (line_in \<circ> telnet_rb)
     (run_events example_config example_events (telnet_boot example_config (Some (Other_hook 0)))) =
     Some 1"
     "map_option (line_out \<circ> telnet_rb)
     (run_events example_config example_events (telnet_boot example_config (Some (Other_hook 0)))) =
     Some 0"
     "map_option flushed
     (run_events example_config example_events (telnet_boot example_config (Some (Other_hook 0)))) =
     Some [[97, 13, 10], [99, 13, 10]]"
    by code_simp+
  from ring_indices_in_range [OF h1 h2, of example_events 10] h1 h2 v show ?thesis by blast
qed

end
